theory Spec2Isabelle
  imports Main "HOL-Library.AList"
begin

section \<open>The reactive core of vue.js: data model\<close>

text \<open>
  The development embeds the dependency-tracking part of \<^verbatim>\<open>src/vue.js\<close>: the functions
  \<^verbatim>\<open>observe\<close>, \<^verbatim>\<open>defineReactive\<close>, \<^verbatim>\<open>getValue\<close>, \<^verbatim>\<open>setValue\<close> and the classes \<^verbatim>\<open>Dep\<close> and
  \<^verbatim>\<open>Watcher\<close>. The template compiler and the DOM are clients of these and are not modelled.

  JavaScript objects live in a store: a value is a primitive or the address of an object, so
  that two properties can hold the same object and \<^verbatim>\<open>===\<close> on objects is identity. Numbers
  are the integers together with \<^verbatim>\<open>NaN\<close>, the one number that is not \<^verbatim>\<open>===\<close> to itself. A
  string is the list of its code units, each below 256. The objects of the store are those
  that object literals and \<^verbatim>\<open>JSON.parse\<close> create: ordinary, extensible, their prototype
  \<^verbatim>\<open>Object.prototype\<close>. Arrays and functions are not values of the data tree.

  A property that an object does not have itself is looked up in \<^verbatim>\<open>Object.prototype\<close>, and a
  property read from a number or a boolean in \<^verbatim>\<open>Number.prototype\<close> or \<^verbatim>\<open>Boolean.prototype\<close>
  and then in \<^verbatim>\<open>Object.prototype\<close>. The value found there is a built-in function or object:
  \<open>VNative P k\<close> is what the member \<open>k\<close> of the prototype \<open>P\<close> gives (for \<open>k\<close> the name
  \<^verbatim>\<open>__proto__\<close>, the prototype itself). The built-in prototypes are taken as the language
  defines them: no program has added members to them or removed any.
\<close>

type_synonym addr = nat
type_synonym dep = nat

datatype builtin = ObjectPrototype | NumberPrototype | BooleanPrototype

datatype val =
    VUndef | VNull | VBool bool | VNum int | VNaN | VStr string | VObj addr
  | VNative builtin string

text \<open>
  \<open>TypeError\<close> is the exception of the language. \<open>Unmodelled\<close> is no exception of the
  program: it is the answer of the model where a run reads from, or assigns to, a built-in
  function or object, or reads from a string a member other than \<^verbatim>\<open>length\<close>. The model says
  nothing about such a run; like an exception, \<open>Unmodelled\<close> ends it.
\<close>

datatype error = TypeError | Unmodelled

text \<open>The only field of a Vue instance the core reads is \<^verbatim>\<open>vm.$data\<close>.\<close>

record vm =
  dollar_data :: val

text \<open>
  A callback is client code. It is given as a script over the three operations the core
  offers its clients: \<^verbatim>\<open>getValue(obj, path)\<close>, \<^verbatim>\<open>setValue(obj, path, newVal)\<close> and
  \<^verbatim>\<open>new Watcher(vm, exp, cb)\<close>. Every invocation of a callback is recorded in the state
  (field \<open>calls\<close>) together with the argument it received.
\<close>

datatype action =
    CallGetValue val string
  | CallSetValue val string val
  | NewWatcher vm string cb
and cb = Callback "action list"

fun actions :: "cb \<Rightarrow> action list" where
  "actions (Callback as) = as"

text \<open>
  A \<^verbatim>\<open>Watcher\<close> object: its three fields never change after construction, so the object is
  kept by value; \<open>wid\<close> is its identity (two watchers with equal fields are still two objects).
\<close>

record watcher =
  wid :: nat
  w_vm :: vm
  w_exp :: string
  w_cb :: cb

text \<open>
  An own property is either a plain data property or the accessor pair installed by
  \<^verbatim>\<open>defineReactive\<close>, whose closure holds the variable \<^verbatim>\<open>value\<close> and the constant \<^verbatim>\<open>dep\<close>.
  An object is the list of its own properties in the order of \<^verbatim>\<open>Object.keys\<close>; that order
  decides nothing but the numbering of the \<^verbatim>\<open>Dep\<close>s.
\<close>

datatype slot = Plain val | Reactive val dep

type_synonym obj = "(string \<times> slot) list"

fun prop_val :: "slot \<Rightarrow> val" where
  "prop_val (Plain v) = v"
| "prop_val (Reactive v d) = v"

fun is_reactive :: "slot \<Rightarrow> bool" where
  "is_reactive (Plain v) = False"
| "is_reactive (Reactive v d) = True"

text \<open>
  The state: the object store, the \<^verbatim>\<open>subs\<close> set of every \<^verbatim>\<open>Dep\<close> (a JavaScript \<^verbatim>\<open>Set\<close>
  iterates in insertion order, so it is a list without repetition), the counters that
  name the next \<^verbatim>\<open>Dep\<close> and the next \<^verbatim>\<open>Watcher\<close>, the static field \<^verbatim>\<open>Dep.target\<close>, and the
  record of callback invocations.
\<close>

record state =
  heap :: "addr \<Rightarrow> obj"
  subs :: "dep \<Rightarrow> watcher list"
  next_dep :: dep
  next_wid :: nat
  target :: "watcher option"
  calls :: "(nat \<times> val) list"

section \<open>Primitive operations of the language\<close>

text \<open>\<^verbatim>\<open>a === b\<close> on the modelled values.\<close>

definition strict_eq :: "val \<Rightarrow> val \<Rightarrow> bool" where
  "strict_eq a b = (a = b \<and> a \<noteq> VNaN)"

text \<open>
  The names of the members of the three prototypes. Those of \<^verbatim>\<open>Object.prototype\<close> are its
  seven members of the core language and the five of its Annex B; all are data properties
  holding functions, except \<^verbatim>\<open>__proto__\<close>, an accessor.
\<close>

definition object_prototype_keys :: "string list" where
  "object_prototype_keys =
     [''constructor'', ''hasOwnProperty'', ''isPrototypeOf'', ''propertyIsEnumerable'',
      ''toLocaleString'', ''toString'', ''valueOf'', ''__proto__'', ''__defineGetter__'',
      ''__defineSetter__'', ''__lookupGetter__'', ''__lookupSetter__'']"

definition number_prototype_keys :: "string list" where
  "number_prototype_keys =
     [''constructor'', ''toExponential'', ''toFixed'', ''toLocaleString'', ''toPrecision'',
      ''toString'', ''valueOf'']"

definition boolean_prototype_keys :: "string list" where
  "boolean_prototype_keys = [''constructor'', ''toString'', ''valueOf'']"

text \<open>
  What \<^verbatim>\<open>Object.prototype\<close> answers for the key \<open>k\<close>, and what the prototype chain that
  starts at \<open>P\<close> answers: the member, or \<^verbatim>\<open>undefined\<close>. The getter of \<^verbatim>\<open>__proto__\<close> answers
  with the prototype of the value it is read from.
\<close>

definition object_member :: "string \<Rightarrow> val" where
  "object_member k =
     (if k \<in> set object_prototype_keys then VNative ObjectPrototype k else VUndef)"

fun member :: "builtin \<Rightarrow> string \<Rightarrow> val" where
  "member ObjectPrototype k = object_member k"
| "member NumberPrototype k =
     (if k = ''__proto__'' \<or> k \<in> set number_prototype_keys then VNative NumberPrototype k
      else object_member k)"
| "member BooleanPrototype k =
     (if k = ''__proto__'' \<or> k \<in> set boolean_prototype_keys then VNative BooleanPrototype k
      else object_member k)"

text \<open>\<^verbatim>\<open>path.split('.')\<close>: always at least one segment.\<close>

fun split_dot :: "string \<Rightarrow> string list" where
  "split_dot [] = [[]]"
| "split_dot (c # cs) =
     (if c = CHR ''.'' then [] # split_dot cs
      else (case split_dot cs of [] \<Rightarrow> [[c]] | w # ws \<Rightarrow> (c # w) # ws))"

section \<open>Dep\<close>

text \<open>
  \<^verbatim>\<open>addSub(sub) { this.subs.add(sub) }\<close>: a set keeps one entry per object. Every watcher
  is constructed with a \<open>wid\<close> of its own, so the same object is the same record.
\<close>

definition Dep_addSub :: "watcher list \<Rightarrow> watcher \<Rightarrow> watcher list" where
  "Dep_addSub ws sub = (if sub \<in> set ws then ws else ws @ [sub])"

definition addSub :: "state \<Rightarrow> dep \<Rightarrow> watcher \<Rightarrow> state" where
  "addSub s d sub = s\<lparr>subs := (subs s)(d := Dep_addSub (subs s d) sub)\<rparr>"

text \<open>\<^verbatim>\<open>new Dep()\<close>: a fresh, empty set.\<close>

definition new_Dep :: "state \<Rightarrow> dep \<times> state" where
  "new_Dep s = (next_dep s, s\<lparr>subs := (subs s)(next_dep s := []), next_dep := Suc (next_dep s)\<rparr>)"

section \<open>Reading a property\<close>

text \<open>
  The getter installed by \<^verbatim>\<open>defineReactive\<close>:
  \<^verbatim>\<open>Dep.target && dep.addSub(Dep.target); return value\<close>.
\<close>

definition reactive_get :: "state \<Rightarrow> val \<Rightarrow> dep \<Rightarrow> val \<times> state" where
  "reactive_get s v d = (case target s of None \<Rightarrow> (v, s) | Some w \<Rightarrow> (v, addSub s d w))"

text \<open>Reading an own property: the value of a data property, or the call of the getter.\<close>

definition slot_get :: "state \<Rightarrow> slot \<Rightarrow> val \<times> state" where
  "slot_get s p = (case p of Plain v \<Rightarrow> (v, s) | Reactive v d \<Rightarrow> reactive_get s v d)"

text \<open>
  \<^verbatim>\<open>obj[key]\<close> on an object: the own property, or else what \<^verbatim>\<open>Object.prototype\<close> answers.
  It cannot throw.
\<close>

definition obj_get :: "state \<Rightarrow> addr \<Rightarrow> string \<Rightarrow> val \<times> state" where
  "obj_get s a k =
     (case map_of (heap s a) k of
        None \<Rightarrow> (object_member k, s)
      | Some p \<Rightarrow> slot_get s p)"

text \<open>
  \<^verbatim>\<open>o[k]\<close> on any value. \<^verbatim>\<open>undefined\<close> and \<^verbatim>\<open>null\<close> throw a TypeError. A number (\<^verbatim>\<open>NaN\<close>
  is one) and a boolean answer with the members of their prototypes. A string has the own
  property \<^verbatim>\<open>length\<close>; its other members (the characters, and the members of
  \<^verbatim>\<open>String.prototype\<close>, whose list varies with the edition of the language) are not modelled,
  nor are the properties of the built-in functions and objects.
\<close>

fun get_prop :: "state \<Rightarrow> val \<Rightarrow> string \<Rightarrow> (error + val) \<times> state" where
  "get_prop s VUndef k = (Inl TypeError, s)"
| "get_prop s VNull k = (Inl TypeError, s)"
| "get_prop s (VObj a) k = (case obj_get s a k of (v, s') \<Rightarrow> (Inr v, s'))"
| "get_prop s (VBool b) k = (Inr (member BooleanPrototype k), s)"
| "get_prop s (VNum i) k = (Inr (member NumberPrototype k), s)"
| "get_prop s VNaN k = (Inr (member NumberPrototype k), s)"
| "get_prop s (VStr str) k =
     (if k = ''length'' then (Inr (VNum (int (length str))), s) else (Inl Unmodelled, s))"
| "get_prop s (VNative P m) k = (Inl Unmodelled, s)"

section \<open>getValue\<close>

text \<open>
  \<^verbatim>\<open>path.split('.').reduce((o, k) => o[k], obj)\<close>. A throw leaves the reduction at once;
  the state it returns holds the subscriptions made until then.
\<close>

fun reduce_get :: "state \<Rightarrow> val \<Rightarrow> string list \<Rightarrow> (error + val) \<times> state" where
  "reduce_get s ob [] = (Inr ob, s)"
| "reduce_get s ob (k # ks) =
     (case get_prop s ob k of
        (Inl e, s') \<Rightarrow> (Inl e, s')
      | (Inr v, s') \<Rightarrow> reduce_get s' v ks)"

definition getValue :: "state \<Rightarrow> val \<Rightarrow> string \<Rightarrow> (error + val) \<times> state" where
  "getValue s obj path = reduce_get s obj (split_dot path)"

section \<open>Watcher: the constructor\<close>

text \<open>
  \<^verbatim>\<open>Dep.target = this; getValue(vm.$data, exp); Dep.target = null\<close>. There is no
  \<^verbatim>\<open>try\<close>: when \<^verbatim>\<open>getValue\<close> throws, the last assignment is not reached.
\<close>

definition new_Watcher :: "state \<Rightarrow> vm \<Rightarrow> string \<Rightarrow> cb \<Rightarrow> (error + watcher) \<times> state" where
  "new_Watcher s v e c =
     (let this = \<lparr>wid = next_wid s, w_vm = v, w_exp = e, w_cb = c\<rparr>;
          s1 = s\<lparr>next_wid := Suc (next_wid s), target := Some this\<rparr>
      in case getValue s1 (dollar_data v) e of
           (Inl err, s2) \<Rightarrow> (Inl err, s2)
         | (Inr x, s2) \<Rightarrow> (Inr this, s2\<lparr>target := None\<rparr>))"

section \<open>observe and defineReactive\<close>

text \<open>
  \<^verbatim>\<open>observe\<close> recurses through the store and does not return on a cyclic object graph; the
  first argument bounds the depth of the recursion, and \<open>None\<close> is the run that has not
  returned within it. \<open>observe_keys\<close> is the \<^verbatim>\<open>forEach\<close> over \<^verbatim>\<open>Object.keys(obj)\<close>, whose
  callback reads \<^verbatim>\<open>obj[key]\<close> (through the getter, when the property is reactive already).
  \<^verbatim>\<open>defineReactive\<close> creates the \<^verbatim>\<open>Dep\<close>, observes the value, and replaces the property by the
  accessor pair. On a built-in value \<^verbatim>\<open>observe\<close> does nothing: a function is not of type
  \<^verbatim>\<open>'object'\<close>, and a built-in prototype has no enumerable property.
\<close>

fun observe :: "nat \<Rightarrow> state \<Rightarrow> val \<Rightarrow> state option"
and observe_keys :: "nat \<Rightarrow> state \<Rightarrow> addr \<Rightarrow> string list \<Rightarrow> state option"
and defineReactive :: "nat \<Rightarrow> state \<Rightarrow> addr \<Rightarrow> string \<Rightarrow> val \<Rightarrow> state option" where
  "observe 0 s v = None"
| "observe (Suc n) s v =
     (case v of VObj a \<Rightarrow> observe_keys n s a (map fst (heap s a)) | _ \<Rightarrow> Some s)"
| "observe_keys n s a [] = Some s"
| "observe_keys n s a (k # ks) =
     (case obj_get s a k of (v, s1) \<Rightarrow>
        (case defineReactive n s1 a k v of
           None \<Rightarrow> None
         | Some s2 \<Rightarrow> observe_keys n s2 a ks))"
| "defineReactive n s a k v =
     (case new_Dep s of (d, s1) \<Rightarrow>
        (case observe n s1 v of
           None \<Rightarrow> None
         | Some s2 \<Rightarrow> Some (s2\<lparr>heap := (heap s2)(a := AList.update k (Reactive v d) (heap s2 a))\<rparr>)))"

section \<open>Writing a property, notification, update\<close>

text \<open>
  The setter of \<^verbatim>\<open>defineReactive\<close> prints a template literal, which converts \<^verbatim>\<open>value\<close> and
  then \<^verbatim>\<open>newVal\<close> to strings. For an object the conversion reads its property \<^verbatim>\<open>toString\<close>
  and, when that is no function, \<^verbatim>\<open>valueOf\<close>, and calls what it finds. The inherited
  \<^verbatim>\<open>toString\<close> returns a string. An own property of a data tree is never a function; so
  when the object has an own \<^verbatim>\<open>toString\<close>, neither it nor an own \<^verbatim>\<open>valueOf\<close> can be called,
  the inherited \<^verbatim>\<open>valueOf\<close> returns the object itself, and the conversion throws a TypeError.
  An own property is read through its getter when it is reactive. (When the own property
  holds a built-in value, what its call does is not modelled.) The conversion of any other
  value returns.
\<close>

definition to_string :: "state \<Rightarrow> val \<Rightarrow> (error + unit) \<times> state" where
  "to_string s v =
     (case v of
        VObj a \<Rightarrow>
          (case map_of (heap s a) ''toString'' of
             None \<Rightarrow> (Inr (), s)
           | Some p \<Rightarrow>
               (case slot_get s p of (f, s1) \<Rightarrow>
                  (case f of
                     VNative P m \<Rightarrow> (Inl Unmodelled, s1)
                   | _ \<Rightarrow>
                       (case map_of (heap s1 a) ''valueOf'' of
                          None \<Rightarrow> (Inl TypeError, s1)
                        | Some q \<Rightarrow>
                            (case slot_get s1 q of (g, s2) \<Rightarrow>
                               (case g of
                                  VNative P m \<Rightarrow> (Inl Unmodelled, s2)
                                | _ \<Rightarrow> (Inl TypeError, s2)))))))
      | _ \<Rightarrow> (Inr (), s))"

text \<open>
  The argument of \<^verbatim>\<open>console.log\<close> in the setter: the key is a string already, \<^verbatim>\<open>value\<close> is
  converted first and \<^verbatim>\<open>newVal\<close> second. Printing itself does nothing to the state.
\<close>

definition console_log :: "state \<Rightarrow> val \<Rightarrow> val \<Rightarrow> (error + unit) \<times> state" where
  "console_log s v newVal =
     (case to_string s v of
        (Inl e, s1) \<Rightarrow> (Inl e, s1)
      | (Inr u, s1) \<Rightarrow> to_string s1 newVal)"

text \<open>
  The setter of the accessor \<^verbatim>\<open>__proto__\<close> of \<^verbatim>\<open>Object.prototype\<close> changes the prototype of
  the object when it is given an object or \<^verbatim>\<open>null\<close>, and does nothing otherwise.
\<close>

fun is_prototype :: "val \<Rightarrow> bool" where
  "is_prototype VNull = True"
| "is_prototype (VObj a) = True"
| "is_prototype (VNative P m) = True"
| "is_prototype v = False"

text \<open>
  A write can run callbacks, callbacks can write, and such a chain need not end; the first
  argument again bounds the run (it is decreased at every iteration of the notification
  loop) and \<open>None\<close> is the run that has not returned within it.

  \<^item> \<open>set_prop\<close> is the assignment \<^verbatim>\<open>o[k] = newVal\<close>. On a reactive property it runs the
    setter of \<^verbatim>\<open>defineReactive\<close>: \<^verbatim>\<open>if (newVal === value) return; console.log(...);\<close>
    \<^verbatim>\<open>value = newVal; observe(newVal); dep.notify()\<close>. When a conversion in the
    \<^verbatim>\<open>console.log\<close> throws, the setter is left before \<^verbatim>\<open>value = newVal\<close>. On \<^verbatim>\<open>undefined\<close> and \<^verbatim>\<open>null\<close> the assignment throws; on another
    primitive it does nothing (the functions of the file are not in strict mode). On an
    object without the key it adds a plain property, also when \<^verbatim>\<open>Object.prototype\<close> has a
    member of that name (they are writable data properties), except for \<^verbatim>\<open>__proto__\<close>, whose
    setter runs; a change of prototype, and an assignment to a property of a built-in value,
    are not modelled.
  \<^item> \<open>Dep_notify\<close> is \<^verbatim>\<open>this.subs.forEach(sub => sub.update())\<close>. \<^verbatim>\<open>Set.prototype.forEach\<close>
    walks the set itself: an entry added while it runs is visited too. \<open>notify_loop\<close> is
    that walk, by position in insertion order (nothing is ever deleted from \<^verbatim>\<open>subs\<close>).
  \<^item> \<open>Watcher_update\<close> is \<^verbatim>\<open>this.cb(getValue(this.vm.$data, this.exp))\<close>.
  \<^item> \<open>run_actions\<close> runs the body of a callback.
  \<^item> \<open>setValue\<close> pops the last key, reduces over the others and assigns. The list of keys
    is never empty (lemma \<open>split_dot_not_Nil\<close>).
\<close>

function (sequential) set_prop :: "nat \<Rightarrow> state \<Rightarrow> val \<Rightarrow> string \<Rightarrow> val \<Rightarrow> ((error + unit) \<times> state) option"
and Dep_notify :: "nat \<Rightarrow> state \<Rightarrow> dep \<Rightarrow> ((error + unit) \<times> state) option"
and notify_loop :: "nat \<Rightarrow> state \<Rightarrow> dep \<Rightarrow> nat \<Rightarrow> ((error + unit) \<times> state) option"
and Watcher_update :: "nat \<Rightarrow> state \<Rightarrow> watcher \<Rightarrow> ((error + unit) \<times> state) option"
and run_actions :: "nat \<Rightarrow> state \<Rightarrow> action list \<Rightarrow> ((error + unit) \<times> state) option"
and setValue :: "nat \<Rightarrow> state \<Rightarrow> val \<Rightarrow> string \<Rightarrow> val \<Rightarrow> ((error + unit) \<times> state) option" where
  "set_prop n s ob k newVal =
     (case ob of
        VUndef \<Rightarrow> Some (Inl TypeError, s)
      | VNull \<Rightarrow> Some (Inl TypeError, s)
      | VObj a \<Rightarrow>
          (case map_of (heap s a) k of
             Some (Reactive v d) \<Rightarrow>
               if strict_eq newVal v then Some (Inr (), s)
               else (case console_log s v newVal of
                       (Inl e, s1) \<Rightarrow> Some (Inl e, s1)
                     | (Inr u, s1) \<Rightarrow>
                         (case observe n
                                 (s1\<lparr>heap := (heap s1)(a := AList.update k (Reactive newVal d) (heap s1 a))\<rparr>)
                                 newVal of
                            None \<Rightarrow> None
                          | Some s2 \<Rightarrow> Dep_notify n s2 d))
           | Some (Plain v) \<Rightarrow>
               Some (Inr (), s\<lparr>heap := (heap s)(a := AList.update k (Plain newVal) (heap s a))\<rparr>)
           | None \<Rightarrow>
               if k = ''__proto__''
               then (if is_prototype newVal then Some (Inl Unmodelled, s) else Some (Inr (), s))
               else Some (Inr (), s\<lparr>heap := (heap s)(a := AList.update k (Plain newVal) (heap s a))\<rparr>))
      | VNative P m \<Rightarrow> Some (Inl Unmodelled, s)
      | _ \<Rightarrow> Some (Inr (), s))"
| "Dep_notify n s d = notify_loop n s d 0"
| "notify_loop 0 s d i = None"
| "notify_loop (Suc n) s d i =
     (if i < length (subs s d) then
        (case Watcher_update n s (subs s d ! i) of
           None \<Rightarrow> None
         | Some (Inl e, s') \<Rightarrow> Some (Inl e, s')
         | Some (Inr u, s') \<Rightarrow> notify_loop n s' d (Suc i))
      else Some (Inr (), s))"
| "Watcher_update n s w =
     (case getValue s (dollar_data (w_vm w)) (w_exp w) of
        (Inl e, s') \<Rightarrow> Some (Inl e, s')
      | (Inr v, s') \<Rightarrow> run_actions n (s'\<lparr>calls := calls s' @ [(wid w, v)]\<rparr>) (actions (w_cb w)))"
| "run_actions n s [] = Some (Inr (), s)"
| "run_actions n s (act # acts) =
     (case act of
        CallGetValue ob p \<Rightarrow>
          (case getValue s ob p of
             (Inl e, s') \<Rightarrow> Some (Inl e, s')
           | (Inr v, s') \<Rightarrow> run_actions n s' acts)
      | CallSetValue ob p v \<Rightarrow>
          (case setValue n s ob p v of
             None \<Rightarrow> None
           | Some (Inl e, s') \<Rightarrow> Some (Inl e, s')
           | Some (Inr u, s') \<Rightarrow> run_actions n s' acts)
      | NewWatcher v e c \<Rightarrow>
          (case new_Watcher s v e c of
             (Inl err, s') \<Rightarrow> Some (Inl err, s')
           | (Inr w, s') \<Rightarrow> run_actions n s' acts))"
| "setValue n s ob path newVal =
     (case reduce_get s ob (butlast (split_dot path)) of
        (Inl e, s') \<Rightarrow> Some (Inl e, s')
      | (Inr tgt, s') \<Rightarrow> set_prop n s' tgt (last (split_dot path)) newVal)"
  by pat_completeness auto

text \<open>
  The bound decreases from \<open>notify_loop\<close> to \<open>Watcher_update\<close> and to the next iteration;
  between two iterations the calls go from \<open>Watcher_update\<close> down to \<open>notify_loop\<close>, and
  \<open>run_actions\<close> walks its list.
\<close>

termination
  by (relation "measures
        [case_sum (case_sum fst (case_sum fst fst)) (case_sum fst (case_sum fst fst)),
         case_sum (case_sum (\<lambda>x. 2) (case_sum (\<lambda>x. 1) (\<lambda>x. 0)))
                  (case_sum (\<lambda>x. 5) (case_sum (\<lambda>x. 4) (\<lambda>x. 3))),
         case_sum (\<lambda>x. 0)
                  (case_sum (\<lambda>x. 0) (case_sum (\<lambda>(n, s, acts). length acts) (\<lambda>x. 0)))]")
     auto

section \<open>Auxiliary notions\<close>

text \<open>
  The \<^verbatim>\<open>Dep\<close>s of the reactive properties that a reduction over \<open>ks\<close> reads, starting from
  \<open>ob\<close>, in the order in which their getters run.
\<close>

fun path_deps :: "(addr \<Rightarrow> obj) \<Rightarrow> val \<Rightarrow> string list \<Rightarrow> dep list" where
  "path_deps h ob [] = []"
| "path_deps h ob (k # ks) =
     (case ob of
        VObj a \<Rightarrow>
          (case map_of (h a) k of
             None \<Rightarrow> []
           | Some (Plain v) \<Rightarrow> path_deps h v ks
           | Some (Reactive v d) \<Rightarrow> d # path_deps h v ks)
      | _ \<Rightarrow> [])"

text \<open>
  Reading without the getters: the value a key, and a list of keys, denote in a store. They
  give the result of \<open>get_prop\<close> and of \<open>reduce_get\<close> (lemmas \<open>get_prop_lookup\<close> and
  \<open>reduce_get_resolve\<close>), which depends on the store alone.
\<close>

fun lookup :: "(addr \<Rightarrow> obj) \<Rightarrow> val \<Rightarrow> string \<Rightarrow> error + val" where
  "lookup h VUndef k = Inl TypeError"
| "lookup h VNull k = Inl TypeError"
| "lookup h (VObj a) k =
     Inr (case map_of (h a) k of None \<Rightarrow> object_member k | Some p \<Rightarrow> prop_val p)"
| "lookup h (VBool b) k = Inr (member BooleanPrototype k)"
| "lookup h (VNum i) k = Inr (member NumberPrototype k)"
| "lookup h VNaN k = Inr (member NumberPrototype k)"
| "lookup h (VStr str) k = (if k = ''length'' then Inr (VNum (int (length str))) else Inl Unmodelled)"
| "lookup h (VNative P m) k = Inl Unmodelled"

fun resolve :: "(addr \<Rightarrow> obj) \<Rightarrow> val \<Rightarrow> string list \<Rightarrow> error + val" where
  "resolve h ob [] = Inr ob"
| "resolve h ob (k # ks) = (case lookup h ob k of Inl e \<Rightarrow> Inl e | Inr v \<Rightarrow> resolve h v ks)"

text \<open>The argument a callback receives when the path of its watcher is read again.\<close>

definition value_at :: "(addr \<Rightarrow> obj) \<Rightarrow> val \<Rightarrow> string \<Rightarrow> val" where
  "value_at h ob path = (case resolve h ob (split_dot path) of Inl e \<Rightarrow> VUndef | Inr v \<Rightarrow> v)"

text \<open>
  A watcher that only reads: its own path resolves, and its callback is a sequence of
  \<^verbatim>\<open>getValue\<close> calls whose paths resolve. The callbacks \<^verbatim>\<open>updateText\<close> and \<^verbatim>\<open>updateValue\<close>
  of the template compiler are of this kind.
\<close>

fun read_ok :: "(addr \<Rightarrow> obj) \<Rightarrow> action \<Rightarrow> bool" where
  "read_ok h (CallGetValue ob p) = (\<not> isl (resolve h ob (split_dot p)))"
| "read_ok h act = False"

definition quiet :: "(addr \<Rightarrow> obj) \<Rightarrow> watcher \<Rightarrow> bool" where
  "quiet h w = (\<not> isl (resolve h (dollar_data (w_vm w)) (split_dot (w_exp w)))
                \<and> list_all (read_ok h) (actions (w_cb w)))"

text \<open>The invocations that one pass over the watchers \<open>ws\<close> records, in order.\<close>

definition reports :: "(addr \<Rightarrow> obj) \<Rightarrow> watcher list \<Rightarrow> (nat \<times> val) list" where
  "reports h ws = map (\<lambda>w. (wid w, value_at h (dollar_data (w_vm w)) (w_exp w))) ws"

text \<open>
  The keys and values of an object, whatever the kind of its properties; whether the
  property \<open>k\<close> of an object is reactive; an object all of whose properties are.
\<close>

definition shape :: "obj \<Rightarrow> (string \<times> val) list" where
  "shape ps = map (\<lambda>(k, p). (k, prop_val p)) ps"

definition reactive_at :: "obj \<Rightarrow> string \<Rightarrow> bool" where
  "reactive_at ps k = (case map_of ps k of None \<Rightarrow> False | Some p \<Rightarrow> is_reactive p)"

definition tracked :: "obj \<Rightarrow> bool" where
  "tracked ps = list_all (reactive_at ps) (map fst ps)"

text \<open>
  A value whose conversion to a string returns: any value but an object with an own
  property \<^verbatim>\<open>toString\<close> (lemma \<open>to_string_printable\<close>).
\<close>

definition printable :: "(addr \<Rightarrow> obj) \<Rightarrow> val \<Rightarrow> bool" where
  "printable h v = (case v of VObj a \<Rightarrow> map_of (h a) ''toString'' = None | _ \<Rightarrow> True)"

text \<open>
  The \<^verbatim>\<open>Dep\<close> of the property \<open>k\<close> of an object, when it is reactive. A property whose
  \<^verbatim>\<open>Dep\<close> was created at or after the moment the next \<^verbatim>\<open>Dep\<close> was \<open>lo\<close>, and an object all of
  whose properties have such a \<^verbatim>\<open>Dep\<close>.
\<close>

definition dep_at :: "obj \<Rightarrow> string \<Rightarrow> dep option" where
  "dep_at ps k = (case map_of ps k of Some (Reactive v d) \<Rightarrow> Some d | _ \<Rightarrow> None)"



section \<open>Relations between states, for the proofs\<close>

text \<open>
  \<open>le_obj\<close>: the same keys and values, and every reactive property still reactive.
  \<open>evolves\<close> is what \<^verbatim>\<open>observe\<close> and every read do to a state: objects change by \<open>le_obj\<close>
  only, \<^verbatim>\<open>Dep.target\<close> and the record of invocations stay, and the \<^verbatim>\<open>Dep\<close>s that exist keep
  their subscribers, in order. \<open>grows\<close> is what every operation of the model does: it can
  add invocations, \<^verbatim>\<open>Dep\<close>s and subscribers, and removes none.
\<close>

definition le_obj :: "obj \<Rightarrow> obj \<Rightarrow> bool" where
  "le_obj ps ps' = (shape ps = shape ps' \<and> list_all (\<lambda>k. reactive_at ps k \<longrightarrow> reactive_at ps' k) (map fst ps))"

definition evolves :: "state \<Rightarrow> state \<Rightarrow> bool" where
  "evolves s s' =
     ((\<forall>a. le_obj (heap s a) (heap s' a))
      \<and> target s' = target s \<and> calls s' = calls s \<and> next_wid s' = next_wid s
      \<and> next_dep s \<le> next_dep s'
      \<and> (\<forall>d<next_dep s. \<exists>ws. subs s' d = subs s d @ ws))"

definition grows :: "state \<Rightarrow> state \<Rightarrow> bool" where
  "grows s s' =
     ((\<exists>cs. calls s' = calls s @ cs)
      \<and> next_dep s \<le> next_dep s'
      \<and> (\<forall>d<next_dep s. \<exists>ws. subs s' d = subs s d @ ws))"

text \<open>
  A property of states that the elementary steps of the model keep: a subscription of
  \<^verbatim>\<open>Dep.target\<close>, a new \<^verbatim>\<open>Dep\<close>, a change of the store, a recorded invocation, and the two
  assignments to \<^verbatim>\<open>Dep.target\<close> in the constructor of \<^verbatim>\<open>Watcher\<close>. Every operation keeps such a
  property (lemmas \<open>kept_observe\<close> to \<open>kept_Dep_notify\<close>).
\<close>

definition kept :: "(state \<Rightarrow> bool) \<Rightarrow> bool" where
  "kept P =
     ((\<forall>s d t. P s \<and> target s = Some t \<longrightarrow> P (addSub s d t))
      \<and> (\<forall>s. P s \<longrightarrow> P (snd (new_Dep s)))
      \<and> (\<forall>s h. P s \<longrightarrow> P (s\<lparr>heap := h\<rparr>))
      \<and> (\<forall>s c. P s \<longrightarrow> P (s\<lparr>calls := calls s @ c\<rparr>))
      \<and> (\<forall>s w. P s \<and> wid w = next_wid s \<longrightarrow>
             P (s\<lparr>next_wid := Suc (next_wid s), target := Some w\<rparr>))
      \<and> (\<forall>s. P s \<longrightarrow> P (s\<lparr>target := None\<rparr>)))"

text \<open>
  \<open>renews\<close>: every reactive property has kept its \<^verbatim>\<open>Dep\<close> or has got one that was created
  in between.
\<close>

definition renews :: "state \<Rightarrow> state \<Rightarrow> bool" where
  "renews s s' =
     (\<forall>a k d. dep_at (heap s a) k = Some d \<longrightarrow>
        (\<exists>d'. dep_at (heap s' a) k = Some d' \<and> (d' = d \<or> (next_dep s \<le> d' \<and> d' < next_dep s'))))"

text \<open>
  The subscriber sets of a state are well formed: no set holds two watchers with the same
  \<open>wid\<close>, every \<open>wid\<close> in use is below the counter, and a watcher that has the \<open>wid\<close> of
  \<^verbatim>\<open>Dep.target\<close> is \<^verbatim>\<open>Dep.target\<close>. The initial state is well formed and every operation keeps
  a state so (lemmas \<open>wf_subs_init\<close> and \<open>kept_wf_subs\<close>).
\<close>

definition wf_subs :: "state \<Rightarrow> bool" where
  "wf_subs s =
     ((\<forall>d. distinct (map wid (subs s d)))
      \<and> (\<forall>d. \<forall>w \<in> set (subs s d). wid w < next_wid s)
      \<and> (\<forall>t. target s = Some t \<longrightarrow>
             wid t < next_wid s \<and> (\<forall>d. \<forall>w \<in> set (subs s d). wid w = wid t \<longrightarrow> w = t)))"

section \<open>Example stores\<close>

text \<open>A program state just after the objects of \<open>h\<close> were created: nothing is intercepted.\<close>

definition init_state :: "(addr \<Rightarrow> obj) \<Rightarrow> state" where
  "init_state h =
     \<lparr>heap = h, subs = (\<lambda>d. []), next_dep = 0, next_wid = 0, target = None, calls = []\<rparr>"

text \<open>The literal \<^verbatim>\<open>{a: {b: 2}}\<close>, its root at address 0.\<close>

definition lit_ab2 :: "addr \<Rightarrow> obj" where
  "lit_ab2 = (\<lambda>a. [])(0 := [(''a'', Plain (VObj 1))], 1 := [(''b'', Plain (VNum 2))])"

text \<open>The literal \<^verbatim>\<open>{a: {b: {c: 1, d: 2}}}\<close>, its root at address 0.\<close>

definition lit_abcd :: "addr \<Rightarrow> obj" where
  "lit_abcd = (\<lambda>a. [])(0 := [(''a'', Plain (VObj 1))], 1 := [(''b'', Plain (VObj 2))],
                       2 := [(''c'', Plain (VNum 1)), (''d'', Plain (VNum 2))])"

text \<open>A Vue instance whose \<^verbatim>\<open>$data\<close> is the object at address 0.\<close>

definition root_vm :: vm where
  "root_vm = \<lparr>dollar_data = VObj 0\<rparr>"

text \<open>The two literals after \<^verbatim>\<open>observe\<close> (lemmas \<open>observe_lit_ab2\<close>, \<open>observe_lit_abcd\<close>).\<close>

definition tracked_ab2 :: state where
  "tracked_ab2 =
     \<lparr>heap = (\<lambda>a. [])(0 := [(''a'', Reactive (VObj 1) 0)], 1 := [(''b'', Reactive (VNum 2) 1)]),
      subs = (\<lambda>d. []), next_dep = 2, next_wid = 0, target = None, calls = []\<rparr>"

definition tracked_abcd :: state where
  "tracked_abcd =
     \<lparr>heap = (\<lambda>a. [])(0 := [(''a'', Reactive (VObj 1) 0)], 1 := [(''b'', Reactive (VObj 2) 1)],
                       2 := [(''c'', Reactive (VNum 1) 2), (''d'', Reactive (VNum 2) 3)]),
      subs = (\<lambda>d. []), next_dep = 4, next_wid = 0, target = None, calls = []\<rparr>"

text \<open>\<^verbatim>\<open>{a: {b: 2}}\<close>, not intercepted, after \<^verbatim>\<open>setValue(root, 'a.b', 5)\<close>.\<close>

definition lit_ab2_written :: state where
  "lit_ab2_written = (init_state lit_ab2)\<lparr>heap := lit_ab2(1 := [(''b'', Plain (VNum 5))])\<rparr>"

text \<open>
  The intercepted \<^verbatim>\<open>{a: {b: 2}}\<close> after \<^verbatim>\<open>new Watcher(vm, 'a.b', cb)\<close> with a callback that
  does nothing (lemma \<open>new_Watcher_tracked_ab2\<close>).
\<close>

definition watch_ab :: watcher where
  "watch_ab = \<lparr>wid = 0, w_vm = root_vm, w_exp = ''a.b'', w_cb = Callback []\<rparr>"

definition watched_ab2 :: state where
  "watched_ab2 = tracked_ab2\<lparr>subs := (\<lambda>d. [])(0 := [watch_ab], 1 := [watch_ab]), next_wid := 1\<rparr>"

text \<open>
  The intercepted \<^verbatim>\<open>{a: {b: 2}}\<close> after \<^verbatim>\<open>new Watcher(vm, 'a.b.c', cb)\<close>: the path goes one
  segment beyond the number, and the watcher is subscribed to \<^verbatim>\<open>a\<close> and to \<^verbatim>\<open>b\<close> (lemma
  \<open>new_Watcher_deep\<close>).
\<close>

definition watch_deep :: watcher where
  "watch_deep = \<lparr>wid = 0, w_vm = root_vm, w_exp = ''a.b.c'', w_cb = Callback []\<rparr>"

definition watched_deep :: state where
  "watched_deep = tracked_ab2\<lparr>subs := (\<lambda>d. [])(0 := [watch_deep], 1 := [watch_deep]), next_wid := 1\<rparr>"

text \<open>The state \<open>watched_ab2\<close> with \<^verbatim>\<open>NaN\<close> stored in \<^verbatim>\<open>a.b\<close>.\<close>

definition watched_nan :: state where
  "watched_nan = watched_ab2\<lparr>heap := (heap watched_ab2)(1 := [(''b'', Reactive VNaN 1)])\<rparr>"

text \<open>
  The intercepted \<^verbatim>\<open>{a: {b: 2}}\<close> with a watcher of \<^verbatim>\<open>a.b\<close> whose callback writes 9 to
  \<^verbatim>\<open>a.b\<close> (lemma \<open>new_Watcher_writer\<close>).
\<close>

definition watch_writer :: watcher where
  "watch_writer = \<lparr>wid = 0, w_vm = root_vm, w_exp = ''a.b'',
                    w_cb = Callback [CallSetValue (VObj 0) ''a.b'' (VNum 9)]\<rparr>"

definition watched_writer :: state where
  "watched_writer =
     tracked_ab2\<lparr>subs := (\<lambda>d. [])(0 := [watch_writer], 1 := [watch_writer]), next_wid := 1\<rparr>"

text \<open>
  The intercepted \<^verbatim>\<open>{a: {b: 2}}\<close> with a watcher of \<^verbatim>\<open>a.b\<close> whose callback constructs
  another watcher of \<^verbatim>\<open>a.b\<close> (lemma \<open>new_Watcher_maker\<close>), and the state after one
  notification of the \<^verbatim>\<open>Dep\<close> of \<^verbatim>\<open>b\<close> (lemma \<open>Dep_notify_maker\<close>).
\<close>

definition watch_made :: watcher where
  "watch_made = \<lparr>wid = 1, w_vm = root_vm, w_exp = ''a.b'', w_cb = Callback []\<rparr>"

definition watch_maker :: watcher where
  "watch_maker = \<lparr>wid = 0, w_vm = root_vm, w_exp = ''a.b'',
                   w_cb = Callback [NewWatcher root_vm ''a.b'' (Callback [])]\<rparr>"

definition watched_maker :: state where
  "watched_maker =
     tracked_ab2\<lparr>subs := (\<lambda>d. [])(0 := [watch_maker], 1 := [watch_maker]), next_wid := 1\<rparr>"

definition notified_maker :: state where
  "notified_maker =
     tracked_ab2\<lparr>subs := (\<lambda>d. [])(0 := [watch_maker, watch_made], 1 := [watch_maker, watch_made]),
                 next_wid := 2, calls := [(0, VNum 2), (1, VNum 2)]\<rparr>"

text \<open>
  The literal \<^verbatim>\<open>{x: {n: 1}, y: 0}\<close>; the same, intercepted, with a watcher of \<^verbatim>\<open>x.n\<close> (lemma
  \<open>watched_xy_reached\<close>): the \<^verbatim>\<open>Dep\<close>s of \<^verbatim>\<open>x\<close>, \<^verbatim>\<open>n\<close> and \<^verbatim>\<open>y\<close> are 0, 1 and 2. Then the
  state after \<^verbatim>\<open>root.y = root.x\<close>.
\<close>

definition lit_xy :: "addr \<Rightarrow> obj" where
  "lit_xy = (\<lambda>a. [])(0 := [(''x'', Plain (VObj 1)), (''y'', Plain (VNum 0))],
                     1 := [(''n'', Plain (VNum 1))])"

definition watch_xn :: watcher where
  "watch_xn = \<lparr>wid = 0, w_vm = root_vm, w_exp = ''x.n'', w_cb = Callback []\<rparr>"

definition watched_xy :: state where
  "watched_xy =
     \<lparr>heap = (\<lambda>a. [])(0 := [(''x'', Reactive (VObj 1) 0), (''y'', Reactive (VNum 0) 2)],
                       1 := [(''n'', Reactive (VNum 1) 1)]),
      subs = (\<lambda>d. [])(0 := [watch_xn], 1 := [watch_xn]),
      next_dep = 3, next_wid = 1, target = None, calls = []\<rparr>"

definition aliased_xy :: state where
  "aliased_xy =
     watched_xy\<lparr>heap := (\<lambda>a. [])(0 := [(''x'', Reactive (VObj 1) 0), (''y'', Reactive (VObj 1) 2)],
                                 1 := [(''n'', Reactive (VNum 1) 3)]),
                next_dep := 4\<rparr>"

text \<open>
  The intercepted \<^verbatim>\<open>{a: {b: 2}}\<close> and, at the addresses 2 and 3, the objects of a new literal
  \<^verbatim>\<open>{c: {e: 7}}\<close> that is not attached yet. Then the state after the literal was stored in
  \<^verbatim>\<open>a.b\<close> and intercepted.
\<close>

definition fresh_ab2 :: state where
  "fresh_ab2 =
     tracked_ab2\<lparr>heap := (heap tracked_ab2)(2 := [(''c'', Plain (VObj 3))],
                                             3 := [(''e'', Plain (VNum 7))])\<rparr>"

definition attached_ab2 :: state where
  "attached_ab2 =
     tracked_ab2\<lparr>heap := (\<lambda>a. [])(0 := [(''a'', Reactive (VObj 1) 0)],
                                  1 := [(''b'', Reactive (VObj 2) 1)],
                                  2 := [(''c'', Reactive (VObj 3) 2)],
                                  3 := [(''e'', Reactive (VNum 7) 3)]),
                 next_dep := 4\<rparr>"

text \<open>The literal \<^verbatim>\<open>{a: {s: 'xyz'}}\<close>, its root at address 0.\<close>

definition lit_as :: "addr \<Rightarrow> obj" where
  "lit_as = (\<lambda>a. [])(0 := [(''a'', Plain (VObj 1))], 1 := [(''s'', Plain (VStr ''xyz''))])"

text \<open>
  The intercepted \<^verbatim>\<open>{a: {b: null}}\<close>. Then the state after these three steps (lemma
  \<open>stale_abnull_reached\<close>): \<^verbatim>\<open>new Watcher(vm, 'a.b.c', cb)\<close> subscribes the watcher to \<^verbatim>\<open>a\<close>
  and \<^verbatim>\<open>b\<close> and throws, which leaves it in \<^verbatim>\<open>Dep.target\<close> (the state \<open>thrown_abnull\<close>);
  \<^verbatim>\<open>getValue(root, 'a.b')\<close> then registers it with both \<^verbatim>\<open>Dep\<close>s a second time;
  \<^verbatim>\<open>new Watcher(vm, 'a', cb)\<close> returns and resets \<^verbatim>\<open>Dep.target\<close>.
\<close>

definition tracked_abnull :: state where
  "tracked_abnull =
     \<lparr>heap = (\<lambda>a. [])(0 := [(''a'', Reactive (VObj 1) 0)], 1 := [(''b'', Reactive VNull 1)]),
      subs = (\<lambda>d. []), next_dep = 2, next_wid = 0, target = None, calls = []\<rparr>"

definition watch_stale :: watcher where
  "watch_stale = \<lparr>wid = 0, w_vm = root_vm, w_exp = ''a.b.c'', w_cb = Callback []\<rparr>"

definition watch_a :: watcher where
  "watch_a = \<lparr>wid = 1, w_vm = root_vm, w_exp = ''a'', w_cb = Callback []\<rparr>"

definition thrown_abnull :: state where
  "thrown_abnull =
     tracked_abnull\<lparr>subs := (\<lambda>d. [])(0 := [watch_stale], 1 := [watch_stale]),
                    next_wid := 1, target := Some watch_stale\<rparr>"

definition stale_abnull :: state where
  "stale_abnull =
     tracked_abnull\<lparr>subs := (\<lambda>d. [])(0 := [watch_stale, watch_a], 1 := [watch_stale]),
                    next_wid := 2\<rparr>"

text \<open>
  The intercepted \<^verbatim>\<open>{a: {b: 2}}\<close> and, at address 2, a new object that is not attached yet:
  the literal \<^verbatim>\<open>{toString: 1}\<close> in the first state, an object \<^verbatim>\<open>o\<close> with \<^verbatim>\<open>o.me = o\<close> in the
  second.
\<close>

definition unprintable_ab2 :: state where
  "unprintable_ab2 = tracked_ab2\<lparr>heap := (heap tracked_ab2)(2 := [(''toString'', Plain (VNum 1))])\<rparr>"

definition cyclic_ab2 :: state where
  "cyclic_ab2 = tracked_ab2\<lparr>heap := (heap tracked_ab2)(2 := [(''me'', Plain (VObj 2))])\<rparr>"

section \<open>Reading: basic facts\<close>

lemma split_dot_not_Nil: "split_dot p \<noteq> []"
  by (induction p) (auto split: list.splits)

lemmas run_defs = new_Watcher_def getValue_def obj_get_def slot_get_def reactive_get_def
  addSub_def Dep_addSub_def new_Dep_def to_string_def console_log_def Let_def object_member_def
  object_prototype_keys_def number_prototype_keys_def boolean_prototype_keys_def

lemmas example_defs = init_state_def lit_ab2_def lit_abcd_def root_vm_def tracked_ab2_def
  tracked_abcd_def lit_ab2_written_def watch_ab_def watched_ab2_def watch_deep_def watched_deep_def
  watched_nan_def watch_writer_def watched_writer_def watch_made_def watch_maker_def
  watched_maker_def notified_maker_def lit_xy_def watch_xn_def watched_xy_def aliased_xy_def
  fresh_ab2_def attached_ab2_def lit_as_def tracked_abnull_def watch_stale_def watch_a_def
  thrown_abnull_def stale_abnull_def unprintable_ab2_def cyclic_ab2_def

lemma object_member_not_obj [simp]: "object_member k \<noteq> VObj b"
  by (simp add: object_member_def)

lemma member_not_obj [simp]: "member P k \<noteq> VObj b"
  by (cases P) simp_all

lemma slot_get_heap [simp]: "heap (snd (slot_get s p)) = heap s"
  by (simp add: slot_get_def reactive_get_def addSub_def split: option.splits slot.splits)

lemma slot_get_target [simp]: "target (snd (slot_get s p)) = target s"
  by (simp add: slot_get_def reactive_get_def addSub_def split: option.splits slot.splits)

lemma slot_get_calls [simp]: "calls (snd (slot_get s p)) = calls s"
  by (simp add: slot_get_def reactive_get_def addSub_def split: option.splits slot.splits)

lemma slot_get_next_dep [simp]: "next_dep (snd (slot_get s p)) = next_dep s"
  by (simp add: slot_get_def reactive_get_def addSub_def split: option.splits slot.splits)

lemma slot_get_next_wid [simp]: "next_wid (snd (slot_get s p)) = next_wid s"
  by (simp add: slot_get_def reactive_get_def addSub_def split: option.splits slot.splits)

lemma slot_get_value [simp]: "fst (slot_get s p) = prop_val p"
  by (simp add: slot_get_def reactive_get_def split: option.splits slot.splits)

lemma slot_get_no_target: "target s = None \<Longrightarrow> snd (slot_get s p) = s"
  by (simp add: slot_get_def reactive_get_def split: slot.splits)

lemma obj_get_heap [simp]: "heap (snd (obj_get s a k)) = heap s"
  by (simp add: obj_get_def split: option.splits)

lemma obj_get_target [simp]: "target (snd (obj_get s a k)) = target s"
  by (simp add: obj_get_def split: option.splits)

lemma obj_get_calls [simp]: "calls (snd (obj_get s a k)) = calls s"
  by (simp add: obj_get_def split: option.splits)


lemma obj_get_next_wid [simp]: "next_wid (snd (obj_get s a k)) = next_wid s"
  by (simp add: obj_get_def split: option.splits)

lemma obj_get_value:
  "fst (obj_get s a k) = (case map_of (heap s a) k of None \<Rightarrow> object_member k | Some p \<Rightarrow> prop_val p)"
  by (simp add: obj_get_def split: option.splits)

lemma obj_get_no_target: "target s = None \<Longrightarrow> snd (obj_get s a k) = s"
  by (simp add: obj_get_def slot_get_no_target split: option.splits)

lemma get_prop_VObj: "get_prop s (VObj a) k = (Inr (fst (obj_get s a k)), snd (obj_get s a k))"
  by (simp add: split_beta)

lemma get_prop_no_target: "target s = None \<Longrightarrow> snd (get_prop s ob k) = s"
  by (cases ob) (simp_all add: obj_get_no_target split_beta)

lemma get_prop_heap [simp]: "heap (snd (get_prop s ob k)) = heap s"
  by (cases ob) (simp_all add: split_beta)

lemma get_prop_target [simp]: "target (snd (get_prop s ob k)) = target s"
  by (cases ob) (simp_all add: split_beta)

lemma get_prop_throws: "fst (get_prop s ob k) = Inl TypeError \<longleftrightarrow> ob = VUndef \<or> ob = VNull"
  by (cases ob) (simp_all add: split_beta)

lemma get_prop_value:
  "fst (get_prop s (VObj a) k) =
     Inr (case map_of (heap s a) k of None \<Rightarrow> object_member k | Some p \<Rightarrow> prop_val p)"
  by (simp add: split_beta obj_get_value)

text \<open>
  The conversions of the setter change neither the store nor \<^verbatim>\<open>Dep.target\<close>; when they
  return, they have changed nothing; and they return on printable values.
\<close>

lemma to_string_heap [simp]: "heap (snd (to_string s v)) = heap s"
  by (simp add: to_string_def split_beta split: val.splits option.splits)

lemma to_string_target [simp]: "target (snd (to_string s v)) = target s"
  by (simp add: to_string_def split_beta split: val.splits option.splits)

lemma to_string_calls [simp]: "calls (snd (to_string s v)) = calls s"
  by (simp add: to_string_def split_beta split: val.splits option.splits)

lemma to_string_ok: "to_string s v = (Inr u, s1) \<Longrightarrow> s1 = s"
  by (auto simp: to_string_def split_beta split: val.splits option.splits)

lemma to_string_printable: "printable (heap s) v \<Longrightarrow> to_string s v = (Inr (), s)"
  by (auto simp: to_string_def printable_def split: val.splits)

lemma to_string_unprintable: "\<not> printable (heap s) v \<Longrightarrow> isl (fst (to_string s v))"
  by (auto simp: to_string_def printable_def split_beta split: val.splits option.splits)

lemma console_log_heap [simp]: "heap (snd (console_log s v w)) = heap s"
proof -
  obtain r s1 where t: "to_string s v = (r, s1)" by (cases "to_string s v")
  then have "heap s1 = heap s" by (metis to_string_heap snd_conv)
  then show ?thesis using t by (cases r) (simp_all add: console_log_def)
qed

lemma console_log_target [simp]: "target (snd (console_log s v w)) = target s"
proof -
  obtain r s1 where t: "to_string s v = (r, s1)" by (cases "to_string s v")
  then have "target s1 = target s" by (metis to_string_target snd_conv)
  then show ?thesis using t by (cases r) (simp_all add: console_log_def)
qed

lemma console_log_calls [simp]: "calls (snd (console_log s v w)) = calls s"
proof -
  obtain r s1 where t: "to_string s v = (r, s1)" by (cases "to_string s v")
  then have "calls s1 = calls s" by (metis to_string_calls snd_conv)
  then show ?thesis using t by (cases r) (simp_all add: console_log_def)
qed

lemma console_log_ok: "console_log s v w = (Inr u, s1) \<Longrightarrow> s1 = s"
proof -
  assume a: "console_log s v w = (Inr u, s1)"
  obtain r s0 where t: "to_string s v = (r, s0)" by (cases "to_string s v")
  then obtain u0 where r: "r = Inr u0" using a by (cases r) (auto simp: console_log_def)
  then have "s0 = s" using t to_string_ok by blast
  moreover have "to_string s0 w = (Inr u, s1)" using a t r by (simp add: console_log_def)
  ultimately show ?thesis using to_string_ok by blast
qed

lemma console_log_printable:
  "printable (heap s) v \<Longrightarrow> printable (heap s) w \<Longrightarrow> console_log s v w = (Inr (), s)"
  by (simp add: console_log_def to_string_printable)

lemma console_log_unprintable:
  "\<not> (printable (heap s) v \<and> printable (heap s) w) \<Longrightarrow> isl (fst (console_log s v w))"
proof (cases "printable (heap s) v")
  case True
  assume "\<not> (printable (heap s) v \<and> printable (heap s) w)"
  then have "isl (fst (to_string s w))" using True by (simp add: to_string_unprintable)
  then show ?thesis using True by (simp add: console_log_def to_string_printable)
next
  case False
  then have "isl (fst (to_string s v))" by (rule to_string_unprintable)
  then show ?thesis by (cases "to_string s v") (auto simp: console_log_def isl_def)
qed

text \<open>What is read from a value that is no object is no object.\<close>

lemma get_prop_prim:
  "(\<And>a. ob \<noteq> VObj a) \<Longrightarrow> get_prop s ob k = (Inr v, s1) \<Longrightarrow> v \<noteq> VObj b"
  by (cases ob) (auto split: if_splits)

lemma reduce_get_no_target: "target s = None \<Longrightarrow> snd (reduce_get s ob ks) = s"
proof (induction ks arbitrary: ob)
  case Nil
  then show ?case by simp
next
  case (Cons k ks)
  have "snd (get_prop s ob k) = s" using Cons.prems by (rule get_prop_no_target)
  then show ?case using Cons by (auto split: prod.splits sum.splits)
qed

lemma reduce_get_append:
  "reduce_get s ob (ks @ ks') =
     (case reduce_get s ob ks of
        (Inl e, s') \<Rightarrow> (Inl e, s')
      | (Inr v, s') \<Rightarrow> reduce_get s' v ks')"
  by (induction ks arbitrary: s ob) (auto split: prod.splits sum.splits)

lemma reduce_get_heap [simp]: "heap (snd (reduce_get s ob ks)) = heap s"
proof (induction ks arbitrary: s ob)
  case Nil
  then show ?case by simp
next
  case (Cons k ks)
  obtain r s1 where g: "get_prop s ob k = (r, s1)" by (cases "get_prop s ob k")
  then have "heap s1 = heap s" by (metis get_prop_heap snd_conv)
  then show ?case using g Cons.IH[of s1] by (cases r) auto
qed

lemma reduce_get_target [simp]: "target (snd (reduce_get s ob ks)) = target s"
proof (induction ks arbitrary: s ob)
  case Nil
  then show ?case by simp
next
  case (Cons k ks)
  obtain r s1 where g: "get_prop s ob k = (r, s1)" by (cases "get_prop s ob k")
  then have "target s1 = target s" by (metis get_prop_target snd_conv)
  then show ?case using g Cons.IH[of s1] by (cases r) auto
qed

text \<open>
  A reduction fails exactly where a read fails. It throws a TypeError exactly when it reads
  a key from \<^verbatim>\<open>undefined\<close> or \<^verbatim>\<open>null\<close>, and it leaves the model exactly when it reads from a
  built-in value, or from a string a key other than \<^verbatim>\<open>length\<close>.
\<close>

lemma get_prop_unmodelled:
  "fst (get_prop s ob k) = Inl Unmodelled \<longleftrightarrow>
     (\<exists>P m. ob = VNative P m) \<or> (\<exists>str. ob = VStr str \<and> k \<noteq> ''length'')"
  by (cases ob) (simp_all add: split_beta)

lemma reduce_get_fails:
  "fst (reduce_get s ob ks) = Inl e \<longleftrightarrow>
     (\<exists>pre k post v s'. ks = pre @ k # post \<and> reduce_get s ob pre = (Inr v, s')
        \<and> fst (get_prop s' v k) = Inl e)"
proof (induction ks arbitrary: s ob)
  case Nil
  then show ?case by simp
next
  case (Cons k ks)
  have split:
    "(\<exists>pre k' post v s'. k # ks = pre @ k' # post \<and> reduce_get s ob pre = (Inr v, s')
              \<and> fst (get_prop s' v k') = Inl e)
       \<longleftrightarrow> fst (get_prop s ob k) = Inl e
           \<or> (\<exists>pre k' post v s'. ks = pre @ k' # post
                  \<and> reduce_get s ob (k # pre) = (Inr v, s') \<and> fst (get_prop s' v k') = Inl e)"
    (is "?A \<longleftrightarrow> ?B \<or> ?C")
  proof
    assume ?A
    then obtain pre k' post v s' where h: "k # ks = pre @ k' # post"
      "reduce_get s ob pre = (Inr v, s')" "fst (get_prop s' v k') = Inl e" by blast
    show "?B \<or> ?C"
    proof (cases pre)
      case Nil
      then show ?thesis using h by simp
    next
      case (Cons x pre')
      then have "ks = pre' @ k' # post" "reduce_get s ob (k # pre') = (Inr v, s')"
        using h by auto
      then show ?thesis using h(3) by blast
    qed
  next
    assume "?B \<or> ?C"
    then show ?A
    proof
      assume ?B
      moreover have "k # ks = [] @ k # ks \<and> reduce_get s ob [] = (Inr ob, s)" by simp
      ultimately show ?A by blast
    next
      assume ?C
      then obtain pre k' post v s' where h: "ks = pre @ k' # post"
        "reduce_get s ob (k # pre) = (Inr v, s')" "fst (get_prop s' v k') = Inl e" by blast
      then have "k # ks = (k # pre) @ k' # post" by simp
      then show ?A using h(2,3) by blast
    qed
  qed
  obtain r s1 where g: "get_prop s ob k = (r, s1)" by (cases "get_prop s ob k")
  show ?case
  proof (cases r)
    case (Inl e0)
    then have 1: "fst (reduce_get s ob (k # ks)) = Inl e \<longleftrightarrow> ?B"
      using g by auto
    have "\<And>pre. reduce_get s ob (k # pre) = (Inl e0, s1)" using g Inl by simp
    then have "\<not> ?C" by (simp del: reduce_get.simps)
    then show ?thesis unfolding split using 1 by blast
  next
    case (Inr v1)
    then have nb: "\<not> ?B" using g by auto
    have l: "fst (reduce_get s ob (k # ks)) = fst (reduce_get s1 v1 ks)" using g Inr by simp
    have "\<And>pre. reduce_get s ob (k # pre) = reduce_get s1 v1 pre" using g Inr by simp
    then have "?C \<longleftrightarrow> (\<exists>pre k' post v s'. ks = pre @ k' # post
                  \<and> reduce_get s1 v1 pre = (Inr v, s') \<and> fst (get_prop s' v k') = Inl e)"
      by (simp del: reduce_get.simps)
    then show ?thesis unfolding split l using nb Cons.IH[of s1 v1] by blast
  qed
qed

lemma reduce_get_throws:
  "fst (reduce_get s ob ks) = Inl TypeError \<longleftrightarrow>
     (\<exists>pre k post v s'. ks = pre @ k # post \<and> reduce_get s ob pre = (Inr v, s')
        \<and> (v = VUndef \<or> v = VNull))"
  unfolding reduce_get_fails get_prop_throws ..

lemma reduce_get_unmodelled:
  "fst (reduce_get s ob ks) = Inl Unmodelled \<longleftrightarrow>
     (\<exists>pre k post v s'. ks = pre @ k # post \<and> reduce_get s ob pre = (Inr v, s')
        \<and> ((\<exists>P m. v = VNative P m) \<or> (\<exists>str. v = VStr str \<and> k \<noteq> ''length'')))"
  unfolding reduce_get_fails get_prop_unmodelled ..

section \<open>The subscriptions a tracked read makes\<close>

lemma Dep_addSub_idem [simp]: "Dep_addSub (Dep_addSub ws w) w = Dep_addSub ws w"
  by (simp add: Dep_addSub_def)

lemma path_deps_prim: "(\<And>a. ob \<noteq> VObj a) \<Longrightarrow> path_deps h ob ks = []"
  by (cases ks; cases ob) auto

lemma get_prop_subs:
  "target s = Some w \<Longrightarrow>
   subs (snd (get_prop s ob k)) d =
     (if d \<in> set (path_deps (heap s) ob [k]) then Dep_addSub (subs s d) w else subs s d)"
  by (cases ob)
     (auto simp: split_beta obj_get_def slot_get_def reactive_get_def addSub_def
           split: option.splits slot.splits)

lemma path_deps_step:
  assumes "get_prop s ob k = (Inr v, s1)"
  shows "path_deps (heap s) ob (k # ks) = path_deps (heap s) ob [k] @ path_deps (heap s) v ks"
proof (cases "\<exists>a. ob = VObj a")
  case True
  then obtain a where VObj: "ob = VObj a" by blast
  then have "v = (case map_of (heap s a) k of None \<Rightarrow> object_member k | Some p \<Rightarrow> prop_val p)"
    using assms get_prop_value[of s a k] by simp
  then show ?thesis using VObj
    by (simp add: path_deps_prim split: option.splits slot.splits)
next
  case False
  then have "\<And>b. v \<noteq> VObj b" using assms get_prop_prim[of ob s k v s1] by blast
  then have "path_deps (heap s) v ks = []" by (rule path_deps_prim)
  moreover have "path_deps (heap s) ob (k # ks) = []" "path_deps (heap s) ob [k] = []"
    using False by (intro path_deps_prim; blast)+
  ultimately show ?thesis by (simp del: path_deps.simps)
qed

text \<open>
  While \<^verbatim>\<open>Dep.target\<close> is \<open>w\<close>, a reduction adds \<open>w\<close> to the \<^verbatim>\<open>Dep\<close> of every reactive property
  it reads, and changes no other \<^verbatim>\<open>Dep\<close>.
\<close>

lemma reduce_get_subs:
  "target s = Some w \<Longrightarrow>
   subs (snd (reduce_get s ob ks)) d =
     (if d \<in> set (path_deps (heap s) ob ks) then Dep_addSub (subs s d) w else subs s d)"
proof (induction ks arbitrary: s ob)
  case Nil
  then show ?case by simp
next
  case (Cons k ks)
  obtain r s1 where g: "get_prop s ob k = (r, s1)" by (cases "get_prop s ob k")
  have h1: "heap s1 = heap s" by (metis g get_prop_heap snd_conv)
  have t1: "target s1 = Some w" by (metis g get_prop_target snd_conv Cons.prems)
  have d1: "subs s1 d =
      (if d \<in> set (path_deps (heap s) ob [k]) then Dep_addSub (subs s d) w else subs s d)"
    using get_prop_subs[OF Cons.prems, of ob k d] g by simp
  show ?case
  proof (cases r)
    case (Inl e)
    have "path_deps (heap s) ob (k # ks) = path_deps (heap s) ob [k]"
      using g Inl by (cases ob) (auto simp: split_beta)
    then show ?thesis using g Inl d1 by (simp del: path_deps.simps)
  next
    case (Inr v)
    have IH: "subs (snd (reduce_get s1 v ks)) d =
       (if d \<in> set (path_deps (heap s) v ks) then Dep_addSub (subs s1 d) w else subs s1 d)"
      using Cons.IH[OF t1, of v] h1 by simp
    have st: "path_deps (heap s) ob (k # ks) =
        path_deps (heap s) ob [k] @ path_deps (heap s) v ks"
      using g Inr by (intro path_deps_step) simp
    have "subs (snd (reduce_get s ob (k # ks))) d = subs (snd (reduce_get s1 v ks)) d"
      using g Inr by simp
    also have "\<dots> = (if d \<in> set (path_deps (heap s) ob [k] @ path_deps (heap s) v ks)
                      then Dep_addSub (subs s d) w else subs s d)"
      unfolding IH d1 by (simp del: path_deps.simps)
    finally show ?thesis unfolding st .
  qed
qed

section \<open>Reading without the getters\<close>

lemma get_prop_lookup: "fst (get_prop s ob k) = lookup (heap s) ob k"
  by (cases ob) (simp_all add: split_beta obj_get_value)

lemma reduce_get_resolve: "fst (reduce_get s ob ks) = resolve (heap s) ob ks"
proof (induction ks arbitrary: s ob)
  case Nil
  then show ?case by simp
next
  case (Cons k ks)
  obtain r s1 where g: "get_prop s ob k = (r, s1)" by (cases "get_prop s ob k")
  have h1: "heap s1 = heap s" by (metis g get_prop_heap snd_conv)
  have r: "r = lookup (heap s) ob k" using g get_prop_lookup[of s ob k] by simp
  show ?case using g Cons.IH[of s1] h1 unfolding r
    by (cases "lookup (heap s) ob k") auto
qed

lemma getValue_no_target:
  "target s = None \<Longrightarrow> getValue s ob p = (resolve (heap s) ob (split_dot p), s)"
  using reduce_get_resolve[of s ob "split_dot p"] reduce_get_no_target[of s ob "split_dot p"]
  by (simp add: getValue_def prod_eq_iff)







section \<open>Notifying watchers that only read\<close>

text \<open>
  While \<^verbatim>\<open>Dep.target\<close> is \<^verbatim>\<open>null\<close>, the update of a watcher that only reads records one
  invocation and changes nothing else; a pass over such watchers visits each position once.
\<close>

lemma run_actions_reads:
  "target s = None \<Longrightarrow> list_all (read_ok (heap s)) acts \<Longrightarrow> run_actions n s acts = Some (Inr (), s)"
proof (induction acts)
  case Nil
  then show ?case by simp
next
  case (Cons act acts)
  then obtain ob p where a: "act = CallGetValue ob p" "\<not> isl (resolve (heap s) ob (split_dot p))"
    by (cases act) auto
  then obtain v where "resolve (heap s) ob (split_dot p) = Inr v"
    by (cases "resolve (heap s) ob (split_dot p)") auto
  then show ?case using Cons a by (simp add: getValue_no_target)
qed

lemma Watcher_update_quiet:
  assumes "target s = None" and "quiet (heap s) w"
  shows "Watcher_update n s w =
           Some (Inr (), s\<lparr>calls := calls s @ reports (heap s) [w]\<rparr>)"
proof -
  obtain v where v: "resolve (heap s) (dollar_data (w_vm w)) (split_dot (w_exp w)) = Inr v"
    using assms(2) by (cases "resolve (heap s) (dollar_data (w_vm w)) (split_dot (w_exp w))")
      (auto simp: quiet_def)
  have "run_actions n (s\<lparr>calls := calls s @ [(wid w, v)]\<rparr>) (actions (w_cb w)) =
          Some (Inr (), s\<lparr>calls := calls s @ [(wid w, v)]\<rparr>)"
    using assms by (intro run_actions_reads) (simp_all add: quiet_def)
  then show ?thesis using v assms(1)
    by (simp add: getValue_no_target reports_def value_at_def)
qed

lemma notify_loop_quiet:
  "target s = None \<Longrightarrow> list_all (quiet (heap s)) (subs s d) \<Longrightarrow> length (subs s d) - i < n \<Longrightarrow>
   notify_loop n s d i =
     Some (Inr (), s\<lparr>calls := calls s @ reports (heap s) (drop i (subs s d))\<rparr>)"
proof (induction n arbitrary: s i)
  case 0
  then show ?case by simp
next
  case (Suc n)
  show ?case
  proof (cases "i < length (subs s d)")
    case False
    then show ?thesis by (simp add: reports_def)
  next
    case True
    let ?w = "subs s d ! i"
    let ?s' = "s\<lparr>calls := calls s @ reports (heap s) [?w]\<rparr>"
    have q: "quiet (heap s) ?w" using Suc.prems(2) True by (simp add: list_all_length)
    have u: "Watcher_update n s ?w = Some (Inr (), ?s')"
      using Suc.prems(1) q by (rule Watcher_update_quiet)
    have "notify_loop n ?s' d (Suc i) =
            Some (Inr (), ?s'\<lparr>calls := calls ?s' @ reports (heap ?s') (drop (Suc i) (subs ?s' d))\<rparr>)"
      using Suc.prems True by (intro Suc.IH) auto
    moreover have "drop i (subs s d) = ?w # drop (Suc i) (subs s d)"
      using True by (simp add: Cons_nth_drop_Suc)
    ultimately show ?thesis using True u
      by (simp add: reports_def del: Watcher_update.simps)
  qed
qed

lemma count_list_distinct:
  "distinct (map f xs) \<Longrightarrow> x \<in> set xs \<Longrightarrow> count_list (map f xs) (f x) = 1"
  by (induction xs) (auto simp: image_iff count_list_0_iff)

section \<open>What interception preserves\<close>

lemma map_fst_shape [simp]: "map fst (shape ps) = map fst ps"
  by (simp add: shape_def split_beta)

lemma map_of_shape: "map_of (shape ps) k = map_option prop_val (map_of ps k)"
  by (induction ps) (auto simp: shape_def)


lemma le_obj_refl [simp]: "le_obj ps ps"
  by (simp add: le_obj_def list_all_iff)

lemma le_obj_keys: "le_obj ps ps' \<Longrightarrow> map fst ps' = map fst ps"
  by (metis le_obj_def map_fst_shape)

lemma le_obj_trans: "le_obj ps ps' \<Longrightarrow> le_obj ps' ps'' \<Longrightarrow> le_obj ps ps''"
  using le_obj_keys[of ps ps'] by (auto simp: le_obj_def list_all_iff)

lemma le_obj_tracked: "le_obj ps ps' \<Longrightarrow> tracked ps \<Longrightarrow> tracked ps'"
  using le_obj_keys[of ps ps'] by (auto simp: le_obj_def tracked_def list_all_iff)

lemma shape_update:
  "map_of (shape ps) k = Some v \<Longrightarrow> prop_val p = v \<Longrightarrow> shape (AList.update k p ps) = shape ps"
  by (induction ps) (auto simp: shape_def)

lemma reactive_at_update:
  "reactive_at (AList.update k p ps) k' = (if k' = k then is_reactive p else reactive_at ps k')"
  by (simp add: reactive_at_def update_conv')

lemma le_obj_update:
  "map_of (shape ps) k = Some v \<Longrightarrow> le_obj ps (AList.update k (Reactive v d) ps)"
  by (simp add: le_obj_def shape_update reactive_at_update list_all_iff)

lemma evolves_refl [simp]: "evolves s s"
  by (simp add: evolves_def)

lemma evolves_trans: "evolves s s' \<Longrightarrow> evolves s' s'' \<Longrightarrow> evolves s s''"
  unfolding evolves_def
  apply (intro conjI allI impI)
       apply (blast intro: le_obj_trans)
      apply simp
     apply simp
    apply simp
   apply simp
  apply (metis append.assoc order_less_le_trans)
  done

lemma evolves_shape: "evolves s s' \<Longrightarrow> shape (heap s' a) = shape (heap s a)"
  by (simp add: evolves_def le_obj_def)

lemma evolves_keys: "evolves s s' \<Longrightarrow> map fst (heap s' a) = map fst (heap s a)"
  by (metis evolves_shape map_fst_shape)



lemma evolves_tracked: "evolves s s' \<Longrightarrow> tracked (heap s a) \<Longrightarrow> tracked (heap s' a)"
  by (metis evolves_def le_obj_tracked)

lemma evolves_reactive_at:
  "evolves s s' \<Longrightarrow> reactive_at (heap s a) k \<Longrightarrow> reactive_at (heap s' a) k"
proof -
  assume e: "evolves s s'" and r: "reactive_at (heap s a) k"
  then have "k \<in> set (map fst (heap s a))"
    by (auto simp: reactive_at_def split: option.splits dest: map_of_SomeD intro: rev_image_eqI)
  moreover have "le_obj (heap s a) (heap s' a)" using e by (simp add: evolves_def)
  ultimately show ?thesis using r by (auto simp: le_obj_def list_all_iff)
qed

lemma obj_get_evolves: "evolves s (snd (obj_get s a k))"
  by (auto simp: evolves_def obj_get_def slot_get_def reactive_get_def addSub_def Dep_addSub_def
      split: option.splits slot.splits)

lemma new_Dep_evolves: "evolves s (snd (new_Dep s))"
  by (auto simp: evolves_def new_Dep_def)

lemma store_evolves:
  "map_of (shape (heap s a)) k = Some v \<Longrightarrow>
   evolves s (s\<lparr>heap := (heap s)(a := AList.update k (Reactive v d) (heap s a))\<rparr>)"
  by (simp add: evolves_def le_obj_update)

lemma defineReactive_evolves:
  assumes IH: "\<And>s v s'. observe n s v = Some s' \<Longrightarrow> evolves s s'"
      and v: "map_of (shape (heap s a)) k = Some v"
      and d: "defineReactive n s a k v = Some s'"
  shows "evolves s s'"
proof -
  obtain dd s1 where nd: "new_Dep s = (dd, s1)" by (cases "new_Dep s")
  then obtain s2 where o: "observe n s1 v = Some s2"
    and s': "s' = s2\<lparr>heap := (heap s2)(a := AList.update k (Reactive v dd) (heap s2 a))\<rparr>"
    using d by (auto split: option.splits)
  have e1: "evolves s s1" using new_Dep_evolves[of s] nd by simp
  have e2: "evolves s1 s2" using IH o by blast
  have e12: "evolves s s2" using e1 e2 by (rule evolves_trans)
  have "map_of (shape (heap s2 a)) k = Some v" using v evolves_shape[OF e12] by simp
  then have "evolves s2 s'" unfolding s' by (rule store_evolves)
  then show ?thesis using e12 evolves_trans by blast
qed

lemma obj_get_shape: "map_of (shape (heap s a)) k = Some v \<Longrightarrow> fst (obj_get s a k) = v"
  by (auto simp: obj_get_value map_of_shape split: option.splits)

lemma key_shape: "k \<in> fst ` set ps \<Longrightarrow> \<exists>v. map_of (shape ps) k = Some v"
  by (metis map_fst_shape list.set_map map_of_eq_None_iff not_None_eq)

lemma observe_keys_evolves:
  assumes IH: "\<And>s v s'. observe n s v = Some s' \<Longrightarrow> evolves s s'"
  shows "set ks \<subseteq> fst ` set (heap s a) \<Longrightarrow> observe_keys n s a ks = Some s' \<Longrightarrow> evolves s s'"
proof (induction ks arbitrary: s)
  case Nil
  then show ?case by simp
next
  case (Cons k ks)
  obtain v s1 where g: "obj_get s a k = (v, s1)" by (cases "obj_get s a k")
  then obtain s2 where d: "defineReactive n s1 a k v = Some s2"
    and r: "observe_keys n s2 a ks = Some s'"
    using Cons.prems(2) by (auto split: option.splits simp del: defineReactive.simps)
  have e1: "evolves s s1" using obj_get_evolves[of s a k] g by simp
  obtain v' where "map_of (shape (heap s a)) k = Some v'" using Cons.prems(1) key_shape by force
  then have "map_of (shape (heap s1 a)) k = Some v"
    using obj_get_shape[of s a k v'] g evolves_shape[OF e1] by simp
  then have e2: "evolves s1 s2"
    using defineReactive_evolves[of n s1 a k v s2] IH d by blast
  have e12: "evolves s s2" using e1 e2 by (rule evolves_trans)
  have "set ks \<subseteq> fst ` set (heap s2 a)"
    using Cons.prems(1) evolves_keys[OF e12, of a] by (metis list.set_map set_subset_Cons subset_trans)
  then have "evolves s2 s'" using r by (rule Cons.IH)
  then show ?case using e12 evolves_trans by blast
qed

lemma observe_evolves: "observe n s v = Some s' \<Longrightarrow> evolves s s'"
proof (induction n arbitrary: s v s')
  case 0
  then show ?case by simp
next
  case (Suc n)
  show ?case
  proof (cases v)
    case (VObj a)
    then have "observe_keys n s a (map fst (heap s a)) = Some s'" using Suc.prems by simp
    then show ?thesis using observe_keys_evolves[of n "map fst (heap s a)" s a s'] Suc.IH by simp
  qed (use Suc.prems in auto)
qed

lemma defineReactive_evolves':
  "map_of (shape (heap s a)) k = Some v \<Longrightarrow> defineReactive n s a k v = Some s' \<Longrightarrow> evolves s s'"
  using defineReactive_evolves[of n s a k v s'] observe_evolves by blast

lemma observe_keys_evolves':
  "set ks \<subseteq> fst ` set (heap s a) \<Longrightarrow> observe_keys n s a ks = Some s' \<Longrightarrow> evolves s s'"
  using observe_keys_evolves[of n ks s a s'] observe_evolves by blast

lemma obj_get_heap_eq: "obj_get s a k = (v, s1) \<Longrightarrow> heap s1 = heap s"
  by (metis obj_get_heap snd_conv)



section \<open>What interception achieves\<close>

lemma evolves_next_dep: "evolves s s' \<Longrightarrow> next_dep s \<le> next_dep s'"
  by (simp add: evolves_def)

lemma dep_at_update:
  "dep_at (AList.update k p ps) k' =
     (if k' = k then (case p of Plain v \<Rightarrow> None | Reactive v d \<Rightarrow> Some d) else dep_at ps k')"
  by (simp add: dep_at_def update_conv' split: slot.splits)






lemma renews_refl [simp]: "renews s s"
  by (simp add: renews_def)

lemma renews_heap: "heap s' = heap s \<Longrightarrow> renews s s'"
  by (simp add: renews_def)

lemma renews_trans:
  assumes r1: "renews s s'" and r2: "renews s' s''"
      and m1: "next_dep s \<le> next_dep s'" and m2: "next_dep s' \<le> next_dep s''"
  shows "renews s s''"
  unfolding renews_def
proof (intro allI impI)
  fix a k d
  assume "dep_at (heap s a) k = Some d"
  then obtain d' where 1: "dep_at (heap s' a) k = Some d'"
      "d' = d \<or> (next_dep s \<le> d' \<and> d' < next_dep s')"
    using r1 unfolding renews_def by blast
  then obtain d'' where 2: "dep_at (heap s'' a) k = Some d''"
      "d'' = d' \<or> (next_dep s' \<le> d'' \<and> d'' < next_dep s'')"
    using r2 unfolding renews_def by blast
  have "d'' = d \<or> (next_dep s \<le> d'' \<and> d'' < next_dep s'')" using 1(2) 2(2) m1 m2 by auto
  then show "\<exists>d'. dep_at (heap s'' a) k = Some d' \<and> (d' = d \<or> next_dep s \<le> d' \<and> d' < next_dep s'')"
    using 2(1) by blast
qed




lemma defineReactive_renews:
  assumes IH: "\<And>s v s'. observe n s v = Some s' \<Longrightarrow> renews s s'"
      and d: "defineReactive n s a k v = Some s'"
  shows "renews s s'"
proof -
  obtain dd s1 where nd: "new_Dep s = (dd, s1)" by (cases "new_Dep s")
  then obtain s2 where o: "observe n s1 v = Some s2"
    and s': "s' = s2\<lparr>heap := (heap s2)(a := AList.update k (Reactive v dd) (heap s2 a))\<rparr>"
    using d by (auto split: option.splits)
  have dd: "dd = next_dep s" "heap s1 = heap s" "next_dep s1 = Suc (next_dep s)"
    using nd by (auto simp: new_Dep_def)
  have r: "renews s1 s2" using IH o by blast
  have m: "next_dep s1 \<le> next_dep s2" using observe_evolves[OF o] by (rule evolves_next_dep)
  have n': "next_dep s' = next_dep s2" unfolding s' by simp
  show ?thesis
    unfolding renews_def
  proof (intro allI impI)
    fix a0 k0 d0
    assume "dep_at (heap s a0) k0 = Some d0"
    then have "dep_at (heap s1 a0) k0 = Some d0" using dd(2) by simp
    then obtain d1 where 1: "dep_at (heap s2 a0) k0 = Some d1"
        "d1 = d0 \<or> (next_dep s1 \<le> d1 \<and> d1 < next_dep s2)"
      using r unfolding renews_def by blast
    show "\<exists>d'. dep_at (heap s' a0) k0 = Some d' \<and> (d' = d0 \<or> next_dep s \<le> d' \<and> d' < next_dep s')"
    proof (cases "a0 = a \<and> k0 = k")
      case True
      then have "dep_at (heap s' a0) k0 = Some dd" unfolding s' by (simp add: dep_at_update)
      then show ?thesis using dd m n' by auto
    next
      case False
      then have "dep_at (heap s' a0) k0 = dep_at (heap s2 a0) k0"
        unfolding s' by (auto simp: dep_at_update)
      then show ?thesis using 1 dd m n' by auto
    qed
  qed
qed

lemma observe_keys_renews:
  assumes IH: "\<And>s v s'. observe n s v = Some s' \<Longrightarrow> renews s s'"
  shows "set ks \<subseteq> fst ` set (heap s a) \<Longrightarrow> observe_keys n s a ks = Some s' \<Longrightarrow> renews s s'"
proof (induction ks arbitrary: s)
  case Nil
  then show ?case by simp
next
  case (Cons k ks)
  obtain v s1 where g: "obj_get s a k = (v, s1)" by (cases "obj_get s a k")
  then obtain s2 where d: "defineReactive n s1 a k v = Some s2"
    and r: "observe_keys n s2 a ks = Some s'"
    using Cons.prems(2) by (auto split: option.splits simp del: defineReactive.simps)
  have e1: "evolves s s1" using obj_get_evolves[of s a k] g by simp
  have r1: "renews s s1" using obj_get_heap_eq[OF g] by (rule renews_heap)
  obtain v' where "map_of (shape (heap s a)) k = Some v'" using Cons.prems(1) key_shape by force
  then have "map_of (shape (heap s1 a)) k = Some v"
    using obj_get_shape[of s a k v'] g evolves_shape[OF e1] by simp
  then have e2: "evolves s1 s2" using d by (rule defineReactive_evolves')
  have r2: "renews s1 s2" using IH d by (rule defineReactive_renews)
  have e12: "evolves s s2" using e1 e2 by (rule evolves_trans)
  have r12: "renews s s2"
    using r1 r2 evolves_next_dep[OF e1] evolves_next_dep[OF e2] by (rule renews_trans)
  have sub: "set ks \<subseteq> fst ` set (heap s2 a)"
    using Cons.prems(1) evolves_keys[OF e12, of a] by (metis list.set_map set_subset_Cons subset_trans)
  have e3: "evolves s2 s'" using sub r by (rule observe_keys_evolves')
  have r3: "renews s2 s'" using sub r by (rule Cons.IH)
  show ?case using r12 r3 evolves_next_dep[OF e12] evolves_next_dep[OF e3] by (rule renews_trans)
qed

lemma observe_renews: "observe n s v = Some s' \<Longrightarrow> renews s s'"
proof (induction n arbitrary: s v s')
  case 0
  then show ?case by simp
next
  case (Suc n)
  show ?case
  proof (cases v)
    case (VObj a)
    then have "observe_keys n s a (map fst (heap s a)) = Some s'" using Suc.prems by simp
    then show ?thesis using observe_keys_renews[of n "map fst (heap s a)" s a s'] Suc.IH by simp
  qed (use Suc.prems in auto)
qed

lemma defineReactive_renews':
  "defineReactive n s a k v = Some s' \<Longrightarrow> renews s s'"
  using defineReactive_renews[of n s a k v s'] observe_renews by blast















section \<open>What every operation preserves\<close>

lemma kept_slot_get: "kept P \<Longrightarrow> P s \<Longrightarrow> P (snd (slot_get s p))"
  by (auto simp: kept_def slot_get_def reactive_get_def split: slot.splits option.splits)

lemma kept_obj_get: "kept P \<Longrightarrow> P s \<Longrightarrow> P (snd (obj_get s a k))"
  by (simp add: obj_get_def kept_slot_get split: option.splits)

lemma kept_get_prop: "kept P \<Longrightarrow> P s \<Longrightarrow> P (snd (get_prop s ob k))"
  by (cases ob) (simp_all add: split_beta kept_obj_get)

lemma kept_reduce_get: "kept P \<Longrightarrow> P s \<Longrightarrow> P (snd (reduce_get s ob ks))"
proof (induction ks arbitrary: s ob)
  case Nil
  then show ?case by simp
next
  case (Cons k ks)
  obtain r s1 where g: "get_prop s ob k = (r, s1)" by (cases "get_prop s ob k")
  have "P s1" using kept_get_prop[OF Cons.prems, of ob k] g by simp
  then show ?case using g Cons.IH[OF Cons.prems(1), of s1] by (cases r) auto
qed

lemma kept_getValue: "kept P \<Longrightarrow> P s \<Longrightarrow> getValue s ob p = (r, s') \<Longrightarrow> P s'"
  using kept_reduce_get[of P s ob "split_dot p"] by (simp add: getValue_def)

lemma kept_to_string: "kept P \<Longrightarrow> P s \<Longrightarrow> P (snd (to_string s v))"
  by (auto simp: to_string_def split_beta kept_slot_get split: val.splits option.splits)

lemma kept_console_log: "kept P \<Longrightarrow> P s \<Longrightarrow> P (snd (console_log s v w))"
proof -
  assume k: "kept P" and p: "P s"
  obtain r s1 where t: "to_string s v = (r, s1)" by (cases "to_string s v")
  have "P s1" using kept_to_string[OF k p, of v] t by simp
  then show ?thesis using t kept_to_string[OF k, of s1 w] by (cases r) (simp_all add: console_log_def)
qed

lemma kept_new_Watcher:
  assumes k: "kept P" and p: "P s" and a: "new_Watcher s v e c = (r, s')"
  shows "P s'"
proof -
  let ?w = "\<lparr>wid = next_wid s, w_vm = v, w_exp = e, w_cb = c\<rparr>"
  let ?s1 = "s\<lparr>next_wid := Suc (next_wid s), target := Some ?w\<rparr>"
  obtain r2 s2 where g: "getValue ?s1 (dollar_data v) e = (r2, s2)"
    by (cases "getValue ?s1 (dollar_data v) e")
  have "P ?s1" using k p unfolding kept_def by simp
  then have p2: "P s2" using k g kept_getValue by blast
  then have "P (s2\<lparr>target := None\<rparr>)" using k unfolding kept_def by blast
  then show ?thesis using a g p2 by (cases r2) (auto simp: new_Watcher_def Let_def)
qed

lemma kept_defineReactive:
  assumes k: "kept P"
      and IH: "\<And>s v s'. P s \<Longrightarrow> observe n s v = Some s' \<Longrightarrow> P s'"
      and p: "P s" and d: "defineReactive n s a k0 v = Some s'"
  shows "P s'"
proof -
  obtain dd s1 where nd: "new_Dep s = (dd, s1)" by (cases "new_Dep s")
  then obtain s2 where o: "observe n s1 v = Some s2"
    and s': "s' = s2\<lparr>heap := (heap s2)(a := AList.update k0 (Reactive v dd) (heap s2 a))\<rparr>"
    using d by (auto split: option.splits)
  have "P s1" using k p nd unfolding kept_def by (metis snd_conv)
  then have "P s2" using IH o by blast
  then show ?thesis unfolding s' using k unfolding kept_def by blast
qed

lemma kept_observe_keys:
  assumes k: "kept P"
      and IH: "\<And>s v s'. P s \<Longrightarrow> observe n s v = Some s' \<Longrightarrow> P s'"
  shows "P s \<Longrightarrow> observe_keys n s a ks = Some s' \<Longrightarrow> P s'"
proof (induction ks arbitrary: s)
  case Nil
  then show ?case by simp
next
  case (Cons k0 ks)
  obtain v s1 where g: "obj_get s a k0 = (v, s1)" by (cases "obj_get s a k0")
  then obtain s2 where d: "defineReactive n s1 a k0 v = Some s2"
    and r: "observe_keys n s2 a ks = Some s'"
    using Cons.prems(2) by (auto split: option.splits simp del: defineReactive.simps)
  have "P s1" using kept_obj_get[OF k Cons.prems(1), of a k0] g by simp
  then have "P s2" using kept_defineReactive[of P n s1 a k0 v s2] k IH d by blast
  then show ?case using r by (rule Cons.IH)
qed

lemma kept_observe: "kept P \<Longrightarrow> P s \<Longrightarrow> observe n s v = Some s' \<Longrightarrow> P s'"
proof (induction n arbitrary: s v s')
  case 0
  then show ?case by simp
next
  case (Suc n)
  show ?case
  proof (cases v)
    case (VObj a)
    then have "observe_keys n s a (map fst (heap s a)) = Some s'" using Suc.prems by simp
    then show ?thesis
      using kept_observe_keys[OF Suc.prems(1), of n s a "map fst (heap s a)" s'] Suc.IH Suc.prems(1,2)
      by blast
  qed (use Suc.prems in auto)
qed

lemma kept_notify_loop_Suc:
  assumes IHu: "\<And>s w r s'. P s \<Longrightarrow> Watcher_update m s w = Some (r, s') \<Longrightarrow> P s'"
      and IHl: "\<And>s d i r s'. P s \<Longrightarrow> notify_loop m s d i = Some (r, s') \<Longrightarrow> P s'"
      and p: "P s" and l: "notify_loop (Suc m) s d i = Some (r, s')"
  shows "P s'"
proof (cases "i < length (subs s d)")
  case False
  then show ?thesis using l p by auto
next
  case True
  then obtain r1 s1 where u: "Watcher_update m s (subs s d ! i) = Some (r1, s1)"
    using l by (cases "Watcher_update m s (subs s d ! i)") (auto simp del: Watcher_update.simps)
  have p1: "P s1" using IHu p u by blast
  show ?thesis
  proof (cases r1)
    case (Inl e)
    then show ?thesis using l True u p1 by (simp del: Watcher_update.simps)
  next
    case (Inr x)
    then have "notify_loop m s1 d (Suc i) = Some (r, s')"
      using l True u by (simp del: Watcher_update.simps)
    then show ?thesis using IHl p1 by blast
  qed
qed

lemma kept_set_prop:
  assumes k0: "kept P"
      and IHl: "\<And>s d i r s'. P s \<Longrightarrow> notify_loop n s d i = Some (r, s') \<Longrightarrow> P s'"
      and p: "P s" and sp: "set_prop n s ob k newVal = Some (r, s')"
  shows "P s'"
proof (cases ob)
  case (VObj a)
  have st: "\<And>s h. P s \<Longrightarrow> P (s\<lparr>heap := h\<rparr>)" using k0 unfolding kept_def by blast
  show ?thesis
  proof (cases "map_of (heap s a) k")
    case None
    then show ?thesis using sp VObj p st by (auto split: if_splits)
  next
    case (Some q)
    show ?thesis
    proof (cases q)
      case (Plain v)
      then show ?thesis using sp VObj Some p st by auto
    next
      case (Reactive v d)
      show ?thesis
      proof (cases "strict_eq newVal v")
        case True
        then show ?thesis using sp VObj Some Reactive p by auto
      next
        case False
        obtain r1 s1 where l: "console_log s v newVal = (r1, s1)"
          by (cases "console_log s v newVal")
        have p1: "P s1" using kept_console_log[OF k0 p, of v newVal] l by simp
        show ?thesis
        proof (cases r1)
          case (Inl e)
          then show ?thesis using sp VObj Some Reactive False l p1 by simp
        next
          case (Inr u)
          let ?s1 = "s1\<lparr>heap := (heap s1)(a := AList.update k (Reactive newVal d) (heap s1 a))\<rparr>"
          obtain s2 where o: "observe n ?s1 newVal = Some s2"
            and nl: "notify_loop n s2 d 0 = Some (r, s')"
            using sp VObj Some Reactive False l Inr by (auto split: option.splits)
          have "P ?s1" using p1 by (rule st)
          then have "P s2" using kept_observe[OF k0 _ o] by blast
          then show ?thesis using IHl nl by blast
        qed
      qed
    qed
  qed
qed (use sp p in auto)

lemma kept_setValue:
  assumes k0: "kept P"
      and IHl: "\<And>s d i r s'. P s \<Longrightarrow> notify_loop n s d i = Some (r, s') \<Longrightarrow> P s'"
      and p: "P s" and sv: "setValue n s ob path newVal = Some (r, s')"
  shows "P s'"
proof -
  obtain r1 s1 where g: "reduce_get s ob (butlast (split_dot path)) = (r1, s1)"
    by (cases "reduce_get s ob (butlast (split_dot path))")
  have p1: "P s1" using kept_reduce_get[OF k0 p, of ob "butlast (split_dot path)"] g by simp
  show ?thesis
  proof (cases r1)
    case (Inl e)
    then show ?thesis using sv g p1 by (simp del: set_prop.simps)
  next
    case (Inr tgt)
    then have "set_prop n s1 tgt (last (split_dot path)) newVal = Some (r, s')"
      using sv g by (simp del: set_prop.simps)
    then show ?thesis
      using kept_set_prop[of P n s1 tgt "last (split_dot path)" newVal r s'] k0 IHl p1 by blast
  qed
qed

lemma kept_run_actions:
  assumes k0: "kept P"
      and IHl: "\<And>s d i r s'. P s \<Longrightarrow> notify_loop n s d i = Some (r, s') \<Longrightarrow> P s'"
  shows "P s \<Longrightarrow> run_actions n s acts = Some (r, s') \<Longrightarrow> P s'"
proof (induction acts arbitrary: s)
  case Nil
  then show ?case by simp
next
  case (Cons act acts)
  show ?case
  proof (cases act)
    case (CallGetValue ob p)
    obtain r1 s1 where g: "getValue s ob p = (r1, s1)" by (cases "getValue s ob p")
    have p1: "P s1" using k0 Cons.prems(1) g by (rule kept_getValue)
    show ?thesis
    proof (cases r1)
      case (Inl e)
      then show ?thesis using Cons.prems CallGetValue g p1 by simp
    next
      case (Inr v)
      then have "run_actions n s1 acts = Some (r, s')" using Cons.prems CallGetValue g by simp
      then show ?thesis using Cons.IH p1 by blast
    qed
  next
    case (CallSetValue ob p v)
    obtain r1 s1 where g: "setValue n s ob p v = Some (r1, s1)"
      using Cons.prems CallSetValue by (cases "setValue n s ob p v") (auto simp del: setValue.simps)
    have p1: "P s1" using kept_setValue[of P n s ob p v r1 s1] k0 IHl Cons.prems(1) g by blast
    show ?thesis
    proof (cases r1)
      case (Inl e)
      then show ?thesis using Cons.prems CallSetValue g p1 by (simp del: setValue.simps)
    next
      case (Inr u)
      then have "run_actions n s1 acts = Some (r, s')"
        using Cons.prems CallSetValue g by (simp del: setValue.simps)
      then show ?thesis using Cons.IH p1 by blast
    qed
  next
    case (NewWatcher v e c)
    obtain r1 s1 where g: "new_Watcher s v e c = (r1, s1)" by (cases "new_Watcher s v e c")
    have p1: "P s1" using k0 Cons.prems(1) g by (rule kept_new_Watcher)
    show ?thesis
    proof (cases r1)
      case (Inl er)
      then show ?thesis using Cons.prems NewWatcher g p1 by simp
    next
      case (Inr w)
      then have "run_actions n s1 acts = Some (r, s')" using Cons.prems NewWatcher g by simp
      then show ?thesis using Cons.IH p1 by blast
    qed
  qed
qed

lemma kept_Watcher_update_open:
  assumes k0: "kept P"
      and IHl: "\<And>s d i r s'. P s \<Longrightarrow> notify_loop n s d i = Some (r, s') \<Longrightarrow> P s'"
      and p: "P s" and u: "Watcher_update n s w = Some (r, s')"
  shows "P s'"
proof -
  obtain r1 s1 where g: "getValue s (dollar_data (w_vm w)) (w_exp w) = (r1, s1)"
    by (cases "getValue s (dollar_data (w_vm w)) (w_exp w)")
  have p1: "P s1" using k0 p g by (rule kept_getValue)
  show ?thesis
  proof (cases r1)
    case (Inl e)
    then show ?thesis using u g p1 by simp
  next
    case (Inr v)
    let ?s2 = "s1\<lparr>calls := calls s1 @ [(wid w, v)]\<rparr>"
    have ra: "run_actions n ?s2 (actions (w_cb w)) = Some (r, s')" using u g Inr by simp
    have "P ?s2" using k0 p1 unfolding kept_def by blast
    then show ?thesis
      using kept_run_actions[of P n ?s2 "actions (w_cb w)" r s'] k0 IHl ra by blast
  qed
qed

lemma kept_notify_loop: "kept P \<Longrightarrow> P s \<Longrightarrow> notify_loop n s d i = Some (r, s') \<Longrightarrow> P s'"
proof (induction n arbitrary: s d i r s')
  case 0
  then show ?case by simp
next
  case (Suc n)
  have "\<And>s w r s'. P s \<Longrightarrow> Watcher_update n s w = Some (r, s') \<Longrightarrow> P s'"
    using kept_Watcher_update_open[OF Suc.prems(1)] Suc.IH[OF Suc.prems(1)] by blast
  then show ?case
    using kept_notify_loop_Suc[of P n s d i r s'] Suc.IH[OF Suc.prems(1)] Suc.prems(2,3) by blast
qed

lemma kept_Watcher_update: "kept P \<Longrightarrow> P s \<Longrightarrow> Watcher_update n s w = Some (r, s') \<Longrightarrow> P s'"
  using kept_Watcher_update_open[of P n s w r s'] kept_notify_loop[of P] by blast

lemma kept_run_actions': "kept P \<Longrightarrow> P s \<Longrightarrow> run_actions n s acts = Some (r, s') \<Longrightarrow> P s'"
  using kept_run_actions[of P n s acts r s'] kept_notify_loop[of P] by blast

lemma kept_set_prop': "kept P \<Longrightarrow> P s \<Longrightarrow> set_prop n s ob k v = Some (r, s') \<Longrightarrow> P s'"
  using kept_set_prop[of P n s ob k v r s'] kept_notify_loop[of P] by blast

lemma kept_setValue': "kept P \<Longrightarrow> P s \<Longrightarrow> setValue n s ob p v = Some (r, s') \<Longrightarrow> P s'"
  using kept_setValue[of P n s ob p v r s'] kept_notify_loop[of P] by blast

lemma kept_Dep_notify: "kept P \<Longrightarrow> P s \<Longrightarrow> Dep_notify n s d = Some (r, s') \<Longrightarrow> P s'"
  using kept_notify_loop[of P s n d 0 r s'] by simp

text \<open>No operation removes an invocation, a \<^verbatim>\<open>Dep\<close> or a subscriber.\<close>

lemma grows_refl [simp]: "grows s s"
  by (simp add: grows_def)

lemma grows_trans: "grows s s' \<Longrightarrow> grows s' s'' \<Longrightarrow> grows s s''"
  unfolding grows_def
  apply (intro conjI allI impI)
    apply (metis append.assoc)
   apply simp
  apply (metis append.assoc order_less_le_trans)
  done

lemma evolves_grows: "evolves s s' \<Longrightarrow> grows s s'"
  by (simp add: evolves_def grows_def)

lemma kept_grows: "kept (grows s0)"
proof -
  have 1: "grows s (addSub s d t)" for s d t
    by (auto simp: grows_def addSub_def Dep_addSub_def)
  have 2: "grows s (snd (new_Dep s))" for s
    by (auto simp: grows_def new_Dep_def)
  have 3: "grows s (s\<lparr>heap := h\<rparr>)" for s h
    by (simp add: grows_def)
  have 4: "grows s (s\<lparr>calls := calls s @ c\<rparr>)" for s c
    by (simp add: grows_def)
  have 5: "grows s (s\<lparr>next_wid := Suc (next_wid s), target := Some w\<rparr>)" for s w
    by (simp add: grows_def)
  have 6: "grows s (s\<lparr>target := None\<rparr>)" for s
    by (simp add: grows_def)
  show ?thesis unfolding kept_def using 1 2 3 4 5 6 grows_trans by blast
qed

lemma get_prop_evolves: "evolves s (snd (get_prop s ob k))"
  by (cases ob) (simp_all add: split_beta obj_get_evolves)

lemma reduce_get_evolves: "evolves s (snd (reduce_get s ob ks))"
proof (induction ks arbitrary: s ob)
  case Nil
  then show ?case by simp
next
  case (Cons k ks)
  obtain r s1 where g: "get_prop s ob k = (r, s1)" by (cases "get_prop s ob k")
  have e1: "evolves s s1" using get_prop_evolves[of s ob k] g by simp
  show ?case
  proof (cases r)
    case (Inl e)
    then show ?thesis using g e1 by simp
  next
    case (Inr v)
    then show ?thesis using g e1 Cons.IH[of s1 v] evolves_trans by auto
  qed
qed

lemma notify_loop_grows: "notify_loop n s d i = Some (r, s') \<Longrightarrow> grows s s'"
  using kept_notify_loop[OF kept_grows, of s s n d i r s'] by simp

lemma Watcher_update_grows: "Watcher_update n s w = Some (r, s') \<Longrightarrow> grows s s'"
  using kept_Watcher_update[OF kept_grows, of s s n w r s'] by simp

text \<open>An update that returns normally has invoked the callback of its watcher.\<close>

lemma Watcher_update_called:
  assumes u: "Watcher_update n s w = Some (Inr (), s')"
  shows "\<exists>v cs. calls s' = calls s @ (wid w, v) # cs"
proof -
  obtain r1 s1 where g: "getValue s (dollar_data (w_vm w)) (w_exp w) = (r1, s1)"
    by (cases "getValue s (dollar_data (w_vm w)) (w_exp w)")
  have c1: "calls s1 = calls s"
    using reduce_get_evolves[of s "dollar_data (w_vm w)" "split_dot (w_exp w)"] g
    by (simp add: getValue_def evolves_def)
  show ?thesis
  proof (cases r1)
    case (Inl e)
    then show ?thesis using u g by simp
  next
    case (Inr v)
    let ?s2 = "s1\<lparr>calls := calls s1 @ [(wid w, v)]\<rparr>"
    have ra: "run_actions n ?s2 (actions (w_cb w)) = Some (Inr (), s')" using u g Inr by simp
    have "grows ?s2 s'" using kept_run_actions'[OF kept_grows _ ra, of ?s2] by simp
    then obtain cs where "calls s' = calls ?s2 @ cs" by (auto simp: grows_def)
    then show ?thesis using c1 by auto
  qed
qed

text \<open>
  When the walk returns normally, the callback of every watcher that stands in the set at
  the end, from position \<open>i\<close> on, has been invoked during the walk.
\<close>

lemma notify_loop_visits:
  "notify_loop n s d i = Some (Inr (), s') \<Longrightarrow> d < next_dep s \<Longrightarrow> i \<le> j \<Longrightarrow>
   j < length (subs s' d) \<Longrightarrow>
   wid (subs s' d ! j) \<in> fst ` set (drop (length (calls s)) (calls s'))"
proof (induction n arbitrary: s i)
  case 0
  then show ?case by simp
next
  case (Suc n)
  show ?case
  proof (cases "i < length (subs s d)")
    case False
    then have "s' = s" using Suc.prems(1) by simp
    then show ?thesis using False Suc.prems by simp
  next
    case True
    let ?w = "subs s d ! i"
    obtain r1 s1 where u: "Watcher_update n s ?w = Some (r1, s1)"
      using Suc.prems(1) True by (cases "Watcher_update n s ?w") (auto simp del: Watcher_update.simps)
    have r1: "r1 = Inr ()" using Suc.prems(1) True u by (cases r1) (auto simp del: Watcher_update.simps)
    have l: "notify_loop n s1 d (Suc i) = Some (Inr (), s')"
      using Suc.prems(1) True u r1 by (simp del: Watcher_update.simps)
    have g1: "grows s s1" using u by (rule Watcher_update_grows)
    have g2: "grows s1 s'" using l by (rule notify_loop_grows)
    obtain v cs1 where c1: "calls s1 = calls s @ (wid ?w, v) # cs1"
      using Watcher_update_called u r1 by blast
    obtain cs2 where c2: "calls s' = calls s1 @ cs2" using g2 by (auto simp: grows_def)
    have d1: "d < next_dep s1" using g1 Suc.prems(2) by (auto simp: grows_def)
    show ?thesis
    proof (cases "j = i")
      case True
      obtain ws1 where "subs s1 d = subs s d @ ws1" using g1 Suc.prems(2) by (auto simp: grows_def)
      moreover obtain ws2 where "subs s' d = subs s1 d @ ws2" using g2 d1 by (auto simp: grows_def)
      ultimately have "subs s' d ! i = ?w" using \<open>i < length (subs s d)\<close> by (simp add: nth_append)
      then show ?thesis using True c1 c2 by (auto simp: image_iff)
    next
      case False
      then have "Suc i \<le> j" using Suc.prems(3) by simp
      then have "wid (subs s' d ! j) \<in> fst ` set (drop (length (calls s1)) (calls s'))"
        using Suc.IH[OF l d1 _ Suc.prems(4)] by simp
      then show ?thesis using c1 c2 by (auto simp: image_iff)
    qed
  qed
qed

section \<open>The subscriber sets stay well formed\<close>

lemma wf_subs_init: "wf_subs (init_state h)"
  by (simp add: wf_subs_def init_state_def)

lemma wf_subs_distinct: "wf_subs s \<Longrightarrow> distinct (map wid (subs s d))"
  by (simp add: wf_subs_def)

lemma addSub_wf_subs:
  assumes w: "wf_subs s" and t: "target s = Some t"
  shows "wf_subs (addSub s d t)"
proof (cases "t \<in> set (subs s d)")
  case True
  then have "addSub s d t = s" by (simp add: addSub_def Dep_addSub_def)
  then show ?thesis using w by simp
next
  case False
  have new: "wid t \<notin> wid ` set (subs s d)"
  proof
    assume "wid t \<in> wid ` set (subs s d)"
    then obtain w' where "w' \<in> set (subs s d)" "wid w' = wid t" by auto
    then have "w' = t" using w t unfolding wf_subs_def by blast
    then show False using False \<open>w' \<in> set (subs s d)\<close> by simp
  qed
  have s': "subs (addSub s d t) = (subs s)(d := subs s d @ [t])"
    "next_wid (addSub s d t) = next_wid s" "target (addSub s d t) = target s"
    using False by (simp_all add: addSub_def Dep_addSub_def)
  have 1: "\<forall>d'. distinct (map wid (subs (addSub s d t) d'))"
    using w new unfolding s' wf_subs_def by auto
  have 2: "\<forall>d'. \<forall>w' \<in> set (subs (addSub s d t) d'). wid w' < next_wid (addSub s d t)"
    using w t unfolding s' wf_subs_def by auto
  have 3: "\<forall>t'. target (addSub s d t) = Some t' \<longrightarrow>
             wid t' < next_wid (addSub s d t)
             \<and> (\<forall>d'. \<forall>w' \<in> set (subs (addSub s d t) d'). wid w' = wid t' \<longrightarrow> w' = t')"
    using w t unfolding s' wf_subs_def by auto
  show ?thesis unfolding wf_subs_def using 1 2 3 by blast
qed

lemma kept_wf_subs: "kept wf_subs"
proof -
  have 1: "wf_subs s \<and> target s = Some t \<longrightarrow> wf_subs (addSub s d t)" for s d t
    using addSub_wf_subs by blast
  have 2: "wf_subs s \<longrightarrow> wf_subs (snd (new_Dep s))" for s
    by (auto simp: wf_subs_def new_Dep_def)
  have 3: "wf_subs s \<longrightarrow> wf_subs (s\<lparr>heap := h\<rparr>)" for s h
    by (simp add: wf_subs_def)
  have 4: "wf_subs s \<longrightarrow> wf_subs (s\<lparr>calls := calls s @ c\<rparr>)" for s c
    by (simp add: wf_subs_def)
  have 5: "wf_subs s \<and> wid w = next_wid s \<longrightarrow>
             wf_subs (s\<lparr>next_wid := Suc (next_wid s), target := Some w\<rparr>)" for s w
    by (fastforce simp: wf_subs_def)
  have 6: "wf_subs s \<longrightarrow> wf_subs (s\<lparr>target := None\<rparr>)" for s
    by (simp add: wf_subs_def)
  show ?thesis unfolding kept_def using 1 2 3 4 5 6 by blast
qed

text \<open>
  So the state of a program that starts with nothing intercepted and calls the operations
  of the core in any order has well-formed subscriber sets.
\<close>

lemma wf_subs_observe: "wf_subs s \<Longrightarrow> observe n s v = Some s' \<Longrightarrow> wf_subs s'"
  using kept_wf_subs by (rule kept_observe)

lemma wf_subs_getValue: "wf_subs s \<Longrightarrow> getValue s ob p = (r, s') \<Longrightarrow> wf_subs s'"
  using kept_wf_subs by (rule kept_getValue)

lemma wf_subs_new_Watcher: "wf_subs s \<Longrightarrow> new_Watcher s v e c = (r, s') \<Longrightarrow> wf_subs s'"
  using kept_wf_subs by (rule kept_new_Watcher)

lemma wf_subs_setValue: "wf_subs s \<Longrightarrow> setValue n s ob p v = Some (r, s') \<Longrightarrow> wf_subs s'"
  using kept_wf_subs by (rule kept_setValue')

lemma wf_subs_Dep_notify: "wf_subs s \<Longrightarrow> Dep_notify n s d = Some (r, s') \<Longrightarrow> wf_subs s'"
  using kept_wf_subs by (rule kept_Dep_notify)

text \<open>
  Registering a watcher changes a well-formed set only when the watcher is not in it, and
  leaves it without repetition.
\<close>

lemma Dep_addSub_member: "w \<in> set ws \<Longrightarrow> Dep_addSub ws w = ws"
  by (simp add: Dep_addSub_def)

lemma Dep_addSub_distinct: "distinct ws \<Longrightarrow> distinct (Dep_addSub ws w)"
  by (simp add: Dep_addSub_def)

section \<open>The setter\<close>

lemma set_prop_reactive:
  assumes "map_of (heap s a) k = Some (Reactive v d)" and "\<not> strict_eq newVal v"
  shows "set_prop n s (VObj a) k newVal =
           (case console_log s v newVal of
              (Inl e, s1) \<Rightarrow> Some (Inl e, s1)
            | (Inr u, s1) \<Rightarrow>
                (case observe n
                        (s1\<lparr>heap := (heap s1)(a := AList.update k (Reactive newVal d) (heap s1 a))\<rparr>)
                        newVal of
                   None \<Rightarrow> None
                 | Some s2 \<Rightarrow> Dep_notify n s2 d))"
  using assms by (simp del: observe.simps Dep_notify.simps)

lemma set_prop_printable:
  assumes "map_of (heap s a) k = Some (Reactive v d)" and "\<not> strict_eq newVal v"
      and "printable (heap s) v" and "printable (heap s) newVal"
  shows "set_prop n s (VObj a) k newVal =
           (case observe n (s\<lparr>heap := (heap s)(a := AList.update k (Reactive newVal d) (heap s a))\<rparr>)
                   newVal of
              None \<Rightarrow> None
            | Some s2 \<Rightarrow> Dep_notify n s2 d)"
  using set_prop_reactive[OF assms(1,2)] console_log_printable[OF assms(3,4)]
  by (simp del: set_prop.simps observe.simps Dep_notify.simps)

lemma set_prop_unprintable:
  assumes "map_of (heap s a) k = Some (Reactive v d)" and "\<not> strict_eq newVal v"
      and "\<not> (printable (heap s) v \<and> printable (heap s) newVal)"
  shows "\<exists>e s'. set_prop n s (VObj a) k newVal = Some (Inl e, s')
            \<and> heap s' = heap s \<and> calls s' = calls s"
proof -
  obtain r s1 where l: "console_log s v newVal = (r, s1)" by (cases "console_log s v newVal")
  then obtain e where r: "r = Inl e"
    using console_log_unprintable[OF assms(3)] by (cases r) auto
  have "heap s1 = heap s" using l by (metis console_log_heap snd_conv)
  moreover have "calls s1 = calls s" using l by (metis console_log_calls snd_conv)
  ultimately show ?thesis
    using set_prop_reactive[OF assms(1,2), of n] l r
    by (simp del: set_prop.simps observe.simps Dep_notify.simps)
qed


text \<open>
  The conversion of an object throws a TypeError when the object has an own \<^verbatim>\<open>toString\<close>, and
  neither that property nor an own \<^verbatim>\<open>valueOf\<close> holds a built-in value.
\<close>

lemma to_string_throws:
  assumes "map_of (heap s a) ''toString'' = Some p" and "\<forall>P m. prop_val p \<noteq> VNative P m"
      and "\<forall>q P m. map_of (heap s a) ''valueOf'' = Some q \<longrightarrow> prop_val q \<noteq> VNative P m"
  shows "fst (to_string s (VObj a)) = Inl TypeError"
proof -
  obtain f s1 where g: "slot_get s p = (f, s1)" by (cases "slot_get s p")
  then have f: "f = prop_val p" "heap s1 = heap s"
    by (metis slot_get_value fst_conv, metis slot_get_heap snd_conv)
  show ?thesis
  proof (cases "map_of (heap s a) ''valueOf''")
    case None
    then show ?thesis using assms(1,2) g f
      by (cases "prop_val p") (simp_all add: to_string_def)
  next
    case (Some q)
    obtain g2 s2 where g2: "slot_get s1 q = (g2, s2)" by (cases "slot_get s1 q")
    then have "g2 = prop_val q" by (metis slot_get_value fst_conv)
    then have "\<forall>P m. g2 \<noteq> VNative P m" using assms(3) Some by simp
    then show ?thesis using assms(1,2) g f Some g2
      by (cases "prop_val p"; cases g2) (simp_all add: to_string_def)
  qed
qed

lemma prim_printable: "\<forall>b. v \<noteq> VObj b \<Longrightarrow> printable h v"
  by (cases v) (simp_all add: printable_def)

section \<open>The examples, computed\<close>

lemma observe_lit_ab2:
  "observe (Suc (Suc (Suc n))) (init_state lit_ab2) (VObj 0) = Some tracked_ab2"
  by (simp add: init_state_def lit_ab2_def tracked_ab2_def run_defs fun_eq_iff)

lemma observe_lit_abcd:
  "observe (Suc (Suc (Suc (Suc n)))) (init_state lit_abcd) (VObj 0) = Some tracked_abcd"
  by (simp add: init_state_def lit_abcd_def tracked_abcd_def run_defs fun_eq_iff)

lemma new_Watcher_tracked_ab2:
  "new_Watcher tracked_ab2 root_vm ''a.b'' (Callback []) = (Inr watch_ab, watched_ab2)"
  by (simp add: tracked_ab2_def watched_ab2_def watch_ab_def root_vm_def run_defs)

lemma new_Watcher_deep:
  "new_Watcher tracked_ab2 root_vm ''a.b.c'' (Callback []) = (Inr watch_deep, watched_deep)"
  by (simp add: example_defs run_defs)

lemma new_Watcher_writer:
  "new_Watcher tracked_ab2 root_vm ''a.b'' (Callback [CallSetValue (VObj 0) ''a.b'' (VNum 9)]) =
     (Inr watch_writer, watched_writer)"
  by (simp add: example_defs run_defs)

lemma new_Watcher_maker:
  "new_Watcher tracked_ab2 root_vm ''a.b'' (Callback [NewWatcher root_vm ''a.b'' (Callback [])]) =
     (Inr watch_maker, watched_maker)"
  by (simp add: example_defs run_defs)

lemma watched_xy_reached:
  "\<exists>s. observe (Suc (Suc (Suc n))) (init_state lit_xy) (VObj 0) = Some s
      \<and> new_Watcher s root_vm ''x.n'' (Callback []) = (Inr watch_xn, watched_xy)"
  by (simp add: example_defs run_defs fun_eq_iff)

lemma Dep_notify_maker: "Dep_notify 3 watched_maker 1 = Some (Inr (), notified_maker)"
  by (simp add: example_defs run_defs eval_nat_numeral fun_eq_iff)



text \<open>
  The run that leads to \<open>stale_abnull\<close>: the constructor that throws, the read that
  registers the stale \<^verbatim>\<open>Dep.target\<close> again and changes nothing, and the constructor that
  resets \<^verbatim>\<open>Dep.target\<close>.
\<close>

lemma stale_abnull_reached:
  "new_Watcher tracked_abnull root_vm ''a.b.c'' (Callback []) = (Inl TypeError, thrown_abnull)
   \<and> target thrown_abnull = Some watch_stale
   \<and> path_deps (heap thrown_abnull) (VObj 0) (split_dot ''a.b'') = [0, 1]
   \<and> getValue thrown_abnull (VObj 0) ''a.b'' = (Inr VNull, thrown_abnull)
   \<and> new_Watcher thrown_abnull root_vm ''a'' (Callback []) = (Inr watch_a, stale_abnull)"
  by (simp add: example_defs run_defs fun_eq_iff)

lemma stale_abnull_wf: "wf_subs stale_abnull"
proof -
  have "wf_subs tracked_abnull" by (simp add: wf_subs_def tracked_abnull_def)
  then have "wf_subs thrown_abnull"
    using stale_abnull_reached wf_subs_new_Watcher by blast
  then show ?thesis using stale_abnull_reached wf_subs_new_Watcher by blast
qed


section \<open>Claims about reading and about the constructor of Watcher\<close>

text \<open>
  C6. Reading a tracked property while \<^verbatim>\<open>Dep.target\<close> is the observer \<open>w\<close> returns the stored
  value and leaves \<open>w\<close> a member of the subscriber set of that property; reading it while
  \<^verbatim>\<open>Dep.target\<close> is \<^verbatim>\<open>null\<close> changes no subscriber set at all.
\<close>

theorem getter_subscribes:
  assumes "map_of (heap s a) k = Some (Reactive v d)"
  shows "fst (get_prop s (VObj a) k) = Inr v
       \<and> (\<forall>w. target s = Some w \<longrightarrow> w \<in> set (subs (snd (get_prop s (VObj a) k)) d))
       \<and> (target s = None \<longrightarrow> subs (snd (get_prop s (VObj a) k)) = subs s)"
  using assms
  by (auto simp: obj_get_def slot_get_def reactive_get_def addSub_def Dep_addSub_def
      split: option.splits)

theorem getter_subscribes_witness:
  "map_of (heap (tracked_ab2\<lparr>target := Some watch_ab\<rparr>) 1) ''b'' = Some (Reactive (VNum 2) 1)
   \<and> watch_ab \<in> set (subs (snd (get_prop (tracked_ab2\<lparr>target := Some watch_ab\<rparr>) (VObj 1) ''b'')) 1)
   \<and> subs tracked_ab2 1 = []
   \<and> subs (snd (get_prop tracked_ab2 (VObj 1) ''b'')) = subs tracked_ab2"
  using getter_subscribes [of "tracked_ab2\<lparr>target := Some watch_ab\<rparr>" 1 "''b''" "VNum 2" 1]
        getter_subscribes [of tracked_ab2 1 "''b''" "VNum 2" 1]
  by (simp add: tracked_ab2_def)

text \<open>
  C1, as the code has it. Constructing a \<^verbatim>\<open>Watcher\<close> on the path \<^verbatim>\<open>a.b.c\<close>, where the three
  properties on the path are tracked, returns normally with \<^verbatim>\<open>Dep.target\<close> reset, and
  subscribes the new watcher to the \<^verbatim>\<open>Dep\<close> of each property it reads on the way: \<^verbatim>\<open>a\<close> on the
  root, \<^verbatim>\<open>b\<close> on \<^verbatim>\<open>root.a\<close> and \<^verbatim>\<open>c\<close> on \<^verbatim>\<open>root.a.b\<close>. Every other \<^verbatim>\<open>Dep\<close> (those of the siblings
  among them) is left as it was.
\<close>

theorem Watcher_subscribes_along_path:
  assumes "dollar_data v = VObj r"
      and "map_of (heap s r) ''a'' = Some (Reactive (VObj ra) da)"
      and "map_of (heap s ra) ''b'' = Some (Reactive (VObj rb) db)"
      and "map_of (heap s rb) ''c'' = Some (Reactive vc dc)"
  shows "\<exists>s'. new_Watcher s v ''a.b.c'' c =
                 (Inr \<lparr>wid = next_wid s, w_vm = v, w_exp = ''a.b.c'', w_cb = c\<rparr>, s')
             \<and> (\<forall>d. subs s' d =
                   (if d \<in> {da, db, dc}
                    then Dep_addSub (subs s d)
                           \<lparr>wid = next_wid s, w_vm = v, w_exp = ''a.b.c'', w_cb = c\<rparr>
                    else subs s d))
             \<and> heap s' = heap s \<and> target s' = None"
proof -
  let ?w = "\<lparr>wid = next_wid s, w_vm = v, w_exp = ''a.b.c'', w_cb = c\<rparr>"
  let ?s1 = "s\<lparr>next_wid := Suc (next_wid s), target := Some ?w\<rparr>"
  let ?ks = "[''a'', ''b'', ''c'']"
  have pd: "path_deps (heap s) (VObj r) ?ks = [da, db, dc]"
    using assms by simp
  have ok: "fst (reduce_get ?s1 (VObj r) ?ks) = Inr vc"
    using assms by (simp add: split_beta obj_get_value)
  obtain s2 where s2: "reduce_get ?s1 (VObj r) ?ks = (Inr vc, s2)"
    using ok by (cases "reduce_get ?s1 (VObj r) ?ks") auto
  have sub: "\<And>d. subs s2 d = (if d \<in> {da, db, dc} then Dep_addSub (subs s d) ?w else subs s d)"
    using reduce_get_subs[of ?s1 ?w "VObj r" ?ks] s2 pd
    by (simp del: path_deps.simps reduce_get.simps)
  have hp: "heap s2 = heap s" using reduce_get_heap[of ?s1 "VObj r" ?ks] s2 by simp
  have "new_Watcher s v ''a.b.c'' c = (Inr ?w, s2\<lparr>target := None\<rparr>)"
    using s2 assms(1) by (simp add: new_Watcher_def getValue_def Let_def)
  then show ?thesis using sub hp by simp
qed

theorem Watcher_subscribes_along_path_witness:
  "subs (snd (new_Watcher tracked_abcd root_vm ''a.b.c'' (Callback []))) 2 =
     [\<lparr>wid = 0, w_vm = root_vm, w_exp = ''a.b.c'', w_cb = Callback []\<rparr>]
   \<and> subs (snd (new_Watcher tracked_abcd root_vm ''a.b.c'' (Callback []))) 3 = []"
  using Watcher_subscribes_along_path [of root_vm 0 tracked_abcd 1 0 2 1 "VNum 1" 2 "Callback []"]
  by (auto simp: root_vm_def tracked_abcd_def Dep_addSub_def)

text \<open>
  C1 as it is stated fails: on the intercepted \<^verbatim>\<open>{a: {b: {c: 1, d: 2}}}\<close> the \<^verbatim>\<open>Dep\<close> of \<^verbatim>\<open>a\<close> on
  the root is number 0 and the \<^verbatim>\<open>Dep\<close> of \<^verbatim>\<open>b\<close> on \<^verbatim>\<open>root.a\<close> is number 1; both are empty before
  \<^verbatim>\<open>new Watcher(vm, 'a.b.c', cb)\<close> and hold the new watcher after it.
\<close>

theorem Watcher_only_leaf_counterexample:
  "map_of (heap tracked_abcd 0) ''a'' = Some (Reactive (VObj 1) 0)
   \<and> map_of (heap tracked_abcd 1) ''b'' = Some (Reactive (VObj 2) 1)
   \<and> subs tracked_abcd 0 = [] \<and> subs tracked_abcd 1 = []
   \<and> subs (snd (new_Watcher tracked_abcd root_vm ''a.b.c'' (Callback []))) 0 =
       [\<lparr>wid = 0, w_vm = root_vm, w_exp = ''a.b.c'', w_cb = Callback []\<rparr>]
   \<and> subs (snd (new_Watcher tracked_abcd root_vm ''a.b.c'' (Callback []))) 1 =
       [\<lparr>wid = 0, w_vm = root_vm, w_exp = ''a.b.c'', w_cb = Callback []\<rparr>]"
  by (simp add: tracked_abcd_def root_vm_def run_defs)

text \<open>
  The constructor leaves \<^verbatim>\<open>Dep.target\<close> at \<^verbatim>\<open>null\<close> when the read returns, and at the watcher
  under construction when the read throws.
\<close>

lemma new_Watcher_target:
  "target (snd (new_Watcher s v e c)) =
     (if isl (fst (new_Watcher s v e c))
      then Some \<lparr>wid = next_wid s, w_vm = v, w_exp = e, w_cb = c\<rparr> else None)"
proof -
  let ?w = "\<lparr>wid = next_wid s, w_vm = v, w_exp = e, w_cb = c\<rparr>"
  let ?s1 = "s\<lparr>next_wid := Suc (next_wid s), target := Some ?w\<rparr>"
  obtain r s2 where g: "reduce_get ?s1 (dollar_data v) (split_dot e) = (r, s2)"
    by (cases "reduce_get ?s1 (dollar_data v) (split_dot e)")
  then have "target s2 = Some ?w"
    using reduce_get_target[of ?s1 "dollar_data v" "split_dot e"] by simp
  then show ?thesis using g by (cases r) (simp_all add: new_Watcher_def getValue_def Let_def)
qed

text \<open>
  C2 at a failing input: on the intercepted \<^verbatim>\<open>{a: {b: 2}}\<close>, \<^verbatim>\<open>new Watcher(vm, 'a.x.y', cb)\<close>
  throws a TypeError out of the constructor, and \<^verbatim>\<open>Dep.target\<close> still holds the watcher under
  construction: it is not \<^verbatim>\<open>null\<close>.
\<close>

theorem Watcher_throw_keeps_target:
  "fst (new_Watcher tracked_ab2 root_vm ''a.x.y'' (Callback [])) = Inl TypeError
   \<and> target (snd (new_Watcher tracked_ab2 root_vm ''a.x.y'' (Callback []))) =
       Some \<lparr>wid = 0, w_vm = root_vm, w_exp = ''a.x.y'', w_cb = Callback []\<rparr>"
  by (simp add: tracked_ab2_def root_vm_def run_defs)

section \<open>Claims about getValue and setValue\<close>

text \<open>
  C4, as the code has it. \<^verbatim>\<open>getValue(root, path)\<close> throws a TypeError exactly when one of
  the segments is read from \<^verbatim>\<open>undefined\<close> or \<^verbatim>\<open>null\<close>, that is, when the segments before it
  resolve to \<^verbatim>\<open>undefined\<close> (a missing key) or to \<^verbatim>\<open>null\<close>. This covers every run that stays
  in the model, and a run leaves the model exactly when a segment is read from a built-in
  function or object, or a segment other than \<^verbatim>\<open>length\<close> from a string. A number, a boolean
  or a string as an intermediate value does not make \<^verbatim>\<open>getValue\<close> throw: a segment read from
  a number or a boolean gives the member of that name or \<^verbatim>\<open>undefined\<close>, and \<^verbatim>\<open>length\<close> read from
  a string gives its length. In particular \<^verbatim>\<open>getValue({a: {b: 2}}, 'a.x.y')\<close> throws, and
  \<^verbatim>\<open>getValue({a: {s: 'xyz'}}, 'a.s.length')\<close> is 3.
\<close>

theorem getValue_throws_iff:
  "(fst (getValue s root path) = Inl TypeError \<longleftrightarrow>
      (\<exists>pre k post v s'. split_dot path = pre @ k # post
          \<and> reduce_get s root pre = (Inr v, s') \<and> (v = VUndef \<or> v = VNull)))
   \<and> (fst (getValue s root path) = Inl Unmodelled \<longleftrightarrow>
      (\<exists>pre k post v s'. split_dot path = pre @ k # post
          \<and> reduce_get s root pre = (Inr v, s')
          \<and> ((\<exists>P m. v = VNative P m) \<or> (\<exists>str. v = VStr str \<and> k \<noteq> ''length''))))
   \<and> (\<forall>b. fst (get_prop s (VBool b) k) = Inr (member BooleanPrototype k))
   \<and> (\<forall>i. fst (get_prop s (VNum i) k) = Inr (member NumberPrototype k))
   \<and> fst (get_prop s VNaN k) = Inr (member NumberPrototype k)
   \<and> (\<forall>str. fst (get_prop s (VStr str) ''length'') = Inr (VNum (int (length str))))
   \<and> fst (getValue (init_state lit_ab2) (VObj 0) ''a.x.y'') = Inl TypeError
   \<and> fst (getValue (init_state lit_as) (VObj 0) ''a.s.length'') = Inr (VNum 3)"
proof -
  have 1: "fst (getValue (init_state lit_ab2) (VObj 0) ''a.x.y'') = Inl TypeError"
    by (simp add: init_state_def lit_ab2_def run_defs)
  have 2: "fst (getValue (init_state lit_as) (VObj 0) ''a.s.length'') = Inr (VNum 3)"
    by (simp add: init_state_def lit_as_def run_defs)
  show ?thesis
    using 1 2 reduce_get_throws[of s root "split_dot path"]
      reduce_get_unmodelled[of s root "split_dot path"]
    by (simp add: getValue_def del: split_dot.simps)
qed

theorem getValue_throws_iff_witness:
  "fst (getValue (init_state lit_ab2) (VObj 0) ''a.x.y'') = Inl TypeError
   \<and> split_dot ''a.x.y'' = [''a'', ''x''] @ ''y'' # []
   \<and> reduce_get (init_state lit_ab2) (VObj 0) [''a'', ''x''] = (Inr VUndef, init_state lit_ab2)
   \<and> fst (getValue (init_state lit_as) (VObj 0) ''a.s.length'') = Inr (VNum 3)"
  using getValue_throws_iff [of "init_state lit_ab2" "VObj 0" "''a.x.y''" "''x''"]
  by (simp add: init_state_def lit_ab2_def run_defs)

text \<open>
  C4 as it is stated fails: in \<^verbatim>\<open>{a: {b: 2}}\<close> the value of \<^verbatim>\<open>a.b\<close> is the number 2, which is
  not a mapping, and yet \<^verbatim>\<open>getValue(root, 'a.b.c')\<close>, for which it is an intermediate value,
  does not throw: it returns \<^verbatim>\<open>undefined\<close>. Nor does \<^verbatim>\<open>getValue(root, 'a.s.length')\<close> on
  \<^verbatim>\<open>{a: {s: 'xyz'}}\<close>, where the intermediate value is a string: it returns 3.
\<close>

theorem getValue_non_mapping_counterexample:
  "fst (getValue (init_state lit_ab2) (VObj 0) ''a.b'') = Inr (VNum 2)
   \<and> fst (getValue (init_state lit_ab2) (VObj 0) ''a.b.c'') = Inr VUndef
   \<and> fst (getValue (init_state lit_as) (VObj 0) ''a.s'') = Inr (VStr ''xyz'')
   \<and> fst (getValue (init_state lit_as) (VObj 0) ''a.s.length'') = Inr (VNum 3)"
  by (simp add: init_state_def lit_ab2_def lit_as_def run_defs)

text \<open>
  C10, as the code has it. Let the segments before the last resolve to an object of which
  the last segment is not a key. When the last segment is not the name of a member of
  \<^verbatim>\<open>Object.prototype\<close> either, \<^verbatim>\<open>getValue\<close> returns \<^verbatim>\<open>undefined\<close> and does not throw. When it
  is, \<^verbatim>\<open>getValue\<close> returns that member, which is not \<^verbatim>\<open>undefined\<close>; it does not throw either.
\<close>

theorem getValue_missing_final:
  assumes "split_dot path = ks @ [k]"
      and "reduce_get s root ks = (Inr (VObj a), s')"
      and "map_of (heap s' a) k = None"
  shows "(k \<notin> set object_prototype_keys \<longrightarrow> getValue s root path = (Inr VUndef, s'))
       \<and> (k \<in> set object_prototype_keys \<longrightarrow>
            getValue s root path = (Inr (VNative ObjectPrototype k), s'))"
  using assms by (simp add: getValue_def reduce_get_append obj_get_def object_member_def)

theorem getValue_missing_final_witness:
  "split_dot ''a.x'' = [''a''] @ [''x'']
   \<and> reduce_get (init_state lit_ab2) (VObj 0) [''a''] = (Inr (VObj 1), init_state lit_ab2)
   \<and> map_of (heap (init_state lit_ab2) 1) ''x'' = None
   \<and> ''x'' \<notin> set object_prototype_keys
   \<and> getValue (init_state lit_ab2) (VObj 0) ''a.x'' = (Inr VUndef, init_state lit_ab2)
   \<and> ''constructor'' \<in> set object_prototype_keys
   \<and> getValue (init_state lit_ab2) (VObj 0) ''a.constructor'' =
       (Inr (VNative ObjectPrototype ''constructor''), init_state lit_ab2)"
  using getValue_missing_final [of "''a.x''" "[''a'']" "''x''" "init_state lit_ab2" "VObj 0" 1
      "init_state lit_ab2"]
    getValue_missing_final [of "''a.constructor''" "[''a'']" "''constructor''" "init_state lit_ab2"
      "VObj 0" 1 "init_state lit_ab2"]
  by (simp add: init_state_def lit_ab2_def run_defs)

text \<open>
  C10 as it is stated fails: in \<^verbatim>\<open>{a: {b: 2}}\<close> the object \<^verbatim>\<open>root.a\<close> is a mapping that has
  no key \<^verbatim>\<open>toString\<close>, and yet \<^verbatim>\<open>getValue(root, 'a.toString')\<close> is not \<^verbatim>\<open>undefined\<close>: it is the
  function inherited from \<^verbatim>\<open>Object.prototype\<close>.
\<close>

theorem getValue_inherited_final_counterexample:
  "reduce_get (init_state lit_ab2) (VObj 0) [''a''] = (Inr (VObj 1), init_state lit_ab2)
   \<and> map_of (heap (init_state lit_ab2) 1) ''toString'' = None
   \<and> getValue (init_state lit_ab2) (VObj 0) ''a.toString'' =
       (Inr (VNative ObjectPrototype ''toString''), init_state lit_ab2)
   \<and> VNative ObjectPrototype ''toString'' \<noteq> VUndef"
  by (simp add: init_state_def lit_ab2_def run_defs)

text \<open>
  C9. On \<^verbatim>\<open>{a: {b: 2}}\<close>, \<^verbatim>\<open>getValue(root, 'a.b')\<close> is 2; \<^verbatim>\<open>setValue(root, 'a.b', 5)\<close> returns, and
  \<^verbatim>\<open>getValue(root, 'a.b')\<close> is 5 afterwards. The same holds when the object is intercepted and a
  watcher of \<^verbatim>\<open>a.b\<close> is subscribed to the property \<^verbatim>\<open>b\<close>; there the \<^verbatim>\<open>setValue\<close> notifies: the
  callback of the watcher is invoked, once, with 5.
\<close>

theorem get_set_get:
  "fst (getValue (init_state lit_ab2) (VObj 0) ''a.b'') = Inr (VNum 2)
   \<and> setValue n (init_state lit_ab2) (VObj 0) ''a.b'' (VNum 5) = Some (Inr (), lit_ab2_written)
   \<and> fst (getValue lit_ab2_written (VObj 0) ''a.b'') = Inr (VNum 5)
   \<and> map_of (heap watched_ab2 1) ''b'' = Some (Reactive (VNum 2) 1)
   \<and> subs watched_ab2 1 = [watch_ab]
   \<and> fst (getValue watched_ab2 (VObj 0) ''a.b'') = Inr (VNum 2)
   \<and> setValue (Suc (Suc n)) watched_ab2 (VObj 0) ''a.b'' (VNum 5) =
        Some (Inr (), watched_ab2\<lparr>heap := (heap watched_ab2)(1 := [(''b'', Reactive (VNum 5) 1)]),
                                  calls := [(0, VNum 5)]\<rparr>)
   \<and> fst (getValue (watched_ab2\<lparr>heap := (heap watched_ab2)(1 := [(''b'', Reactive (VNum 5) 1)]),
                                  calls := [(0, VNum 5)]\<rparr>) (VObj 0) ''a.b'') = Inr (VNum 5)"
  by (simp add: init_state_def lit_ab2_def lit_ab2_written_def watched_ab2_def watch_ab_def
       tracked_ab2_def root_vm_def run_defs strict_eq_def)

theorem get_set_get_witness:
  "setValue 2 watched_ab2 (VObj 0) ''a.b'' (VNum 5) =
        Some (Inr (), watched_ab2\<lparr>heap := (heap watched_ab2)(1 := [(''b'', Reactive (VNum 5) 1)]),
                                  calls := [(0, VNum 5)]\<rparr>)"
  using get_set_get [of 0] by (simp add: numeral_2_eq_2)

section \<open>Claims about writing and notification\<close>

text \<open>
  C3, as the code has it. Let a tracked property hold the primitive value \<open>v1\<close>, let \<open>v2\<close>
  be a primitive value, let \<^verbatim>\<open>Dep.target\<close> be \<^verbatim>\<open>null\<close>, and let every subscriber of the
  property be a watcher that only reads and whose path still resolves once \<open>v2\<close> is stored.
  The subscriber sets are well formed, as they are in every state that the operations
  reach (lemmas \<open>wf_subs_init\<close>, \<open>kept_wf_subs\<close>). If \<open>v2\<close> is not \<^verbatim>\<open>===\<close> to \<open>v1\<close>, the write
  returns normally, stores \<open>v2\<close>, and records one invocation for each subscriber, in the
  order of subscription, with the value read again; each subscriber is invoked exactly
  once. If \<open>v2\<close> is \<^verbatim>\<open>===\<close> to \<open>v1\<close>, the write changes nothing and invokes nothing. A
  subscriber that is registered again, by \<^verbatim>\<open>addSub\<close> or by reading the property while it is
  \<^verbatim>\<open>Dep.target\<close>, is not added a second time: the set and the whole state stay as they are.
\<close>

theorem write_notifies_once:
  assumes "map_of (heap s a) k = Some (Reactive v1 d)"
      and "\<forall>b. v1 \<noteq> VObj b"
      and "\<forall>b. v2 \<noteq> VObj b"
      and "target s = None"
      and "list_all (quiet ((heap s)(a := AList.update k (Reactive v2 d) (heap s a)))) (subs s d)"
      and "wf_subs s"
      and "length (subs s d) < n"
  shows "(\<not> strict_eq v2 v1 \<longrightarrow>
            set_prop n s (VObj a) k v2 =
              Some (Inr (),
                    s\<lparr>heap := (heap s)(a := AList.update k (Reactive v2 d) (heap s a)),
                      calls := calls s @ reports ((heap s)(a := AList.update k (Reactive v2 d) (heap s a)))
                                           (subs s d)\<rparr>)
            \<and> (\<forall>w \<in> set (subs s d).
                  count_list (map fst (reports ((heap s)(a := AList.update k (Reactive v2 d) (heap s a)))
                                         (subs s d))) (wid w) = 1))
       \<and> (strict_eq v2 v1 \<longrightarrow> set_prop n s (VObj a) k v2 = Some (Inr (), s))
       \<and> (\<forall>w \<in> set (subs s d).
             Dep_addSub (subs s d) w = subs s d
             \<and> snd (get_prop (s\<lparr>target := Some w\<rparr>) (VObj a) k) = s\<lparr>target := Some w\<rparr>)"
proof -
  let ?h1 = "(heap s)(a := AList.update k (Reactive v2 d) (heap s a))"
  let ?s1 = "s\<lparr>heap := ?h1\<rparr>"
  obtain m where n: "n = Suc m" using assms(7) by (cases n) auto
  have o: "observe n ?s1 v2 = Some ?s1" using assms(3) n by (cases v2) auto
  have p: "printable (heap s) v1" "printable (heap s) v2"
    using assms(2,3) by (simp_all add: prim_printable)
  have "notify_loop n ?s1 d 0 =
          Some (Inr (), ?s1\<lparr>calls := calls ?s1 @ reports (heap ?s1) (drop 0 (subs ?s1 d))\<rparr>)"
    using assms by (intro notify_loop_quiet) auto
  then have 1: "\<not> strict_eq v2 v1 \<Longrightarrow> set_prop n s (VObj a) k v2 =
              Some (Inr (), s\<lparr>heap := ?h1, calls := calls s @ reports ?h1 (subs s d)\<rparr>)"
    using set_prop_printable[OF assms(1) _ p, of n] o
    by (simp del: observe.simps set_prop.simps)
  have 2: "\<And>w. w \<in> set (subs s d) \<Longrightarrow> count_list (map fst (reports ?h1 (subs s d))) (wid w) = 1"
    using count_list_distinct[OF wf_subs_distinct[OF assms(6), of d]]
    by (simp add: reports_def comp_def)
  have 3: "strict_eq v2 v1 \<Longrightarrow> set_prop n s (VObj a) k v2 = Some (Inr (), s)"
    using assms(1) by simp
  have 4: "Dep_addSub (subs s d) w = subs s d
           \<and> snd (get_prop (s\<lparr>target := Some w\<rparr>) (VObj a) k) = s\<lparr>target := Some w\<rparr>"
    if "w \<in> set (subs s d)" for w
    using that assms(1)
    by (simp add: obj_get_def slot_get_def reactive_get_def addSub_def Dep_addSub_def)
  show ?thesis using 1 2 3 4 by blast
qed

theorem write_notifies_once_witness:
  "map_of (heap stale_abnull 1) ''b'' = Some (Reactive VNull 1)
   \<and> wf_subs stale_abnull
   \<and> subs stale_abnull 1 = [watch_stale]
   \<and> Dep_addSub (subs stale_abnull 1) watch_stale = [watch_stale]
   \<and> snd (get_prop (stale_abnull\<lparr>target := Some watch_stale\<rparr>) (VObj 1) ''b'') =
       stale_abnull\<lparr>target := Some watch_stale\<rparr>
   \<and> set_prop 2 stale_abnull (VObj 1) ''b'' (VNum 5) =
       Some (Inr (), stale_abnull\<lparr>heap := (heap stale_abnull)(1 := [(''b'', Reactive (VNum 5) 1)]),
                                  calls := [(0, VUndef)]\<rparr>)
   \<and> count_list (map fst [(0::nat, VUndef)]) (wid watch_stale) = 1
   \<and> set_prop 2 stale_abnull (VObj 1) ''b'' VNull = Some (Inr (), stale_abnull)"
  using write_notifies_once [of stale_abnull 1 "''b''" VNull 1 "VNum 5" 2]
        write_notifies_once [of stale_abnull 1 "''b''" VNull 1 VNull 2]
        stale_abnull_wf
  by (simp add: example_defs quiet_def reports_def value_at_def strict_eq_def run_defs)

text \<open>
  C3 as it is stated fails, three times over. On the intercepted \<^verbatim>\<open>{a: {b: 2}}\<close> with a
  watcher of \<^verbatim>\<open>a.b.c\<close> subscribed to \<^verbatim>\<open>b\<close>, writing \<^verbatim>\<open>null\<close> over 2 invokes no callback: the
  update reads \<^verbatim>\<open>null['c']\<close> and throws. With \<^verbatim>\<open>NaN\<close> stored in \<^verbatim>\<open>a.b\<close>, writing \<^verbatim>\<open>NaN\<close>
  again invokes the callback. With a watcher whose callback writes 9 to \<^verbatim>\<open>a.b\<close>, writing 5
  over 2 invokes that callback twice.
\<close>

theorem write_notifies_once_counterexample:
  "map_of (heap watched_deep 1) ''b'' = Some (Reactive (VNum 2) 1)
   \<and> subs watched_deep 1 = [watch_deep]
   \<and> set_prop 3 watched_deep (VObj 1) ''b'' VNull =
       Some (Inl TypeError, watched_deep\<lparr>heap := (heap watched_deep)(1 := [(''b'', Reactive VNull 1)])\<rparr>)
   \<and> calls (watched_deep\<lparr>heap := (heap watched_deep)(1 := [(''b'', Reactive VNull 1)])\<rparr>) = []
   \<and> map_of (heap watched_nan 1) ''b'' = Some (Reactive VNaN 1)
   \<and> subs watched_nan 1 = [watch_ab]
   \<and> set_prop 3 watched_nan (VObj 1) ''b'' VNaN = Some (Inr (), watched_nan\<lparr>calls := [(0, VNaN)]\<rparr>)
   \<and> map_of (heap watched_writer 1) ''b'' = Some (Reactive (VNum 2) 1)
   \<and> subs watched_writer 1 = [watch_writer]
   \<and> set_prop 3 watched_writer (VObj 1) ''b'' (VNum 5) =
       Some (Inr (), watched_writer\<lparr>heap := (heap watched_writer)(1 := [(''b'', Reactive (VNum 9) 1)]),
                                    calls := [(0, VNum 5), (0, VNum 9)]\<rparr>)"
  by (simp add: example_defs run_defs strict_eq_def eval_nat_numeral)

text \<open>
  C8, as the code has it. \<^verbatim>\<open>notify()\<close> walks the set itself. When it returns normally, the
  subscribers it started with are still there, in their order, followed by those added
  during the pass, and the callback of every one of them, the added ones too, has been invoked
  during the pass. When \<^verbatim>\<open>Dep.target\<close> is \<^verbatim>\<open>null\<close> and every subscriber is a watcher that
  only reads, it returns normally and has invoked exactly the subscribers it started with,
  once each, in order.
\<close>

theorem Dep_notify_walks_live_set:
  "(Dep_notify n s d = Some (Inr (), s') \<and> d < next_dep s \<longrightarrow>
      (\<exists>ws. subs s' d = subs s d @ ws)
      \<and> (\<forall>j<length (subs s' d).
            wid (subs s' d ! j) \<in> fst ` set (drop (length (calls s)) (calls s'))))
   \<and> (target s = None \<and> list_all (quiet (heap s)) (subs s d) \<and> length (subs s d) < n \<longrightarrow>
        Dep_notify n s d = Some (Inr (), s\<lparr>calls := calls s @ reports (heap s) (subs s d)\<rparr>))"
proof (intro conjI impI)
  assume a: "Dep_notify n s d = Some (Inr (), s') \<and> d < next_dep s"
  then have l: "notify_loop n s d 0 = Some (Inr (), s')" by simp
  then have "grows s s'" by (rule notify_loop_grows)
  then show "\<exists>ws. subs s' d = subs s d @ ws" using a by (simp add: grows_def)
  show "\<forall>j<length (subs s' d).
            wid (subs s' d ! j) \<in> fst ` set (drop (length (calls s)) (calls s'))"
    using notify_loop_visits[OF l] a by simp
next
  assume "target s = None \<and> list_all (quiet (heap s)) (subs s d) \<and> length (subs s d) < n"
  then show "Dep_notify n s d = Some (Inr (), s\<lparr>calls := calls s @ reports (heap s) (subs s d)\<rparr>)"
    using notify_loop_quiet[of s d 0 n] by simp
qed

theorem Dep_notify_walks_live_set_witness:
  "Dep_notify 3 watched_maker 1 = Some (Inr (), notified_maker)
   \<and> 1 < next_dep watched_maker
   \<and> subs notified_maker 1 = subs watched_maker 1 @ [watch_made]
   \<and> wid (subs notified_maker 1 ! 1) \<in> fst ` set (drop (length (calls watched_maker)) (calls notified_maker))
   \<and> target watched_ab2 = None
   \<and> Dep_notify 2 watched_ab2 1 = Some (Inr (), watched_ab2\<lparr>calls := [(0, VNum 2)]\<rparr>)"
  using Dep_notify_walks_live_set [of 3 watched_maker 1 notified_maker] Dep_notify_maker
        Dep_notify_walks_live_set [of 2 watched_ab2 1]
  by (simp add: example_defs quiet_def reports_def value_at_def)

text \<open>
  C8 as it is stated fails: no snapshot is taken. The \<^verbatim>\<open>Dep\<close> of \<^verbatim>\<open>b\<close> has one subscriber,
  whose callback constructs a second watcher of \<^verbatim>\<open>a.b\<close>; that watcher is added to the set
  during the pass and is visited in the same pass.
\<close>

theorem Dep_notify_snapshot_counterexample:
  "subs watched_maker 1 = [watch_maker]
   \<and> calls watched_maker = []
   \<and> Dep_notify 3 watched_maker 1 = Some (Inr (), notified_maker)
   \<and> subs notified_maker 1 = [watch_maker, watch_made]
   \<and> calls notified_maker = [(wid watch_maker, VNum 2), (wid watch_made, VNum 2)]"
  by (simp add: example_defs run_defs eval_nat_numeral fun_eq_iff)







end
